theory Spec2Isabelle
  imports Main "HOL-Library.Multiset"
begin

section \<open>Objects, references and the store\<close>

text \<open>
  The Python program builds a tree out of mutable objects that point at each other
  (child slots downwards, \<open>parent\<close> upwards). Objects therefore live in an explicit store:
  a reference is an index into the list of all node objects created so far, and creating
  an object appends it to the store. References held by the program always point at
  existing objects, so a read is \<open>h ! a\<close> with \<open>a < length h\<close>.
\<close>

type_synonym ref = nat

text \<open>
  \<open>class DecisionNode(Node)\<close> with attributes \<open>parent\<close>, \<open>left_child\<close>, \<open>right_child\<close> and
  \<open>class LeafNode(Node)\<close> with attributes \<open>parent\<close>, \<open>value\<close>. The attribute \<open>type\<close> is the
  class name and is read off the constructor.
\<close>

datatype node =
    DecisionNode (parent: "ref option") (left_child: "ref option") (right_child: "ref option")
  | LeafNode (parent: "ref option") (val: string)

type_synonym heap = "node list"

fun node_type :: "node \<Rightarrow> string" where
  "node_type (DecisionNode p l r) = ''DecisionNode''"
| "node_type (LeafNode p v) = ''LeafNode''"

text \<open>\<open>isinstance(node, DecisionNode)\<close>\<close>

fun is_decision :: "node \<Rightarrow> bool" where
  "is_decision (DecisionNode p l r) = True"
| "is_decision (LeafNode p v) = False"

text \<open>Attribute assignment \<open>node.left_child = x\<close>, \<open>node.right_child = x\<close>, \<open>node.parent = x\<close>.\<close>

fun set_left_child :: "ref option \<Rightarrow> node \<Rightarrow> node" where
  "set_left_child x (DecisionNode p l r) = DecisionNode p x r"
| "set_left_child x (LeafNode p v) = LeafNode p v"

fun set_right_child :: "ref option \<Rightarrow> node \<Rightarrow> node" where
  "set_right_child x (DecisionNode p l r) = DecisionNode p l x"
| "set_right_child x (LeafNode p v) = LeafNode p v"

fun set_parent :: "ref option \<Rightarrow> node \<Rightarrow> node" where
  "set_parent x (DecisionNode p l r) = DecisionNode x l r"
| "set_parent x (LeafNode p v) = LeafNode x v"

text \<open>Object creation: the new object gets the next free reference.\<close>

definition alloc :: "heap \<Rightarrow> node \<Rightarrow> heap \<times> ref" where
  "alloc h n = (h @ [n], length h)"

text \<open>
  Values a caller can pass where a node is expected: \<open>None\<close>, a reference to a node
  object, or some other Python value (an integer or a string here).
\<close>

datatype pyval = PyNone | NodeRef ref | PyInt int | PyStr string

text \<open>
  The exceptions the program raises: \<open>raise Exception(msg)\<close>, \<open>raise ValueError(msg)\<close> and
  \<open>raise StopIteration\<close>.
\<close>

datatype error = Exception string | ValueError string | StopIteration

text \<open>Lines written by \<open>print\<close>, one constructor per print statement of the source.\<close>

datatype line =
    VisitandoNoDecisao
  | FolhaAtingida
  | VisitandoNoDecisaoContagem
  | FolhaEncontrada int
  | EstadoAtual string
  | NenhumEstado
  | CriadaRaiz
  | HandlingSplitting
  | HandlingStopping
  | HandlingPruning
  | AvisoRaizNone

section \<open>Formatting of leaf labels\<close>

text \<open>
  \<open>f"{n:02d}"\<close>: the decimal digits of \<open>n\<close>, padded on the left with zeros to width 2; a
  negative number keeps its sign, which counts for the width.
\<close>

fun digits :: "nat \<Rightarrow> string" where
  "digits n = (if n < 10 then [''0123456789'' ! n]
               else digits (n div 10) @ [''0123456789'' ! (n mod 10)])"

declare digits.simps [simp del]

definition format_02d :: "int \<Rightarrow> string" where
  "format_02d i =
     (if i < 0 then CHR ''-'' # digits (nat (- i))
      else replicate (2 - length (digits (nat i))) CHR ''0'' @ digits (nat i))"

section \<open>DecisionNode: attaching children\<close>

text \<open>
  Each operation returns the store after the call together with either the exception
  raised or \<open>Inr ()\<close>.
\<close>

definition add_left_child :: "heap \<Rightarrow> ref \<Rightarrow> pyval \<Rightarrow> heap \<times> (error + unit)" where
  "add_left_child h self child =
     (case child of
        NodeRef c \<Rightarrow>
          (if left_child (h ! self) \<noteq> None
           then (h, Inl (Exception ''Left child is already set.''))
           else let h1 = h[self := set_left_child (Some c) (h ! self)];
                    h2 = h1[c := set_parent (Some self) (h1 ! c)]
                in (h2, Inr ()))
      | _ \<Rightarrow> (h, Inl (ValueError ''Child must be an instance of Node.'')))"

definition add_right_child :: "heap \<Rightarrow> ref \<Rightarrow> pyval \<Rightarrow> heap \<times> (error + unit)" where
  "add_right_child h self child =
     (case child of
        NodeRef c \<Rightarrow>
          (if right_child (h ! self) \<noteq> None
           then (h, Inl (Exception ''Right child is already set.''))
           else let h1 = h[self := set_right_child (Some c) (h ! self)];
                    h2 = h1[c := set_parent (Some self) (h1 ! c)]
                in (h2, Inr ()))
      | _ \<Rightarrow> (h, Inl (ValueError ''Child must be an instance of Node.'')))"

definition add_child :: "heap \<Rightarrow> ref \<Rightarrow> pyval \<Rightarrow> heap \<times> (error + unit)" where
  "add_child h self child =
     (if left_child (h ! self) = None then add_left_child h self child
      else if right_child (h ! self) = None then add_right_child h self child
      else (h, Inl (Exception ''Both child nodes are already set.'')))"

section \<open>Visitors\<close>

text \<open>
  A visitor object is its attributes together with the lines its handlers have printed.
  \<open>class DepthVisitor\<close>: both handlers only print.
\<close>

record depth_visitor =
  current_depth :: int
  depth_printed :: "line list"

definition DepthVisitor :: depth_visitor where
  "DepthVisitor = \<lparr>current_depth = 0, depth_printed = []\<rparr>"

definition depth_visit_decision_node :: "depth_visitor \<Rightarrow> ref \<Rightarrow> depth_visitor" where
  "depth_visit_decision_node v a = v\<lparr>depth_printed := depth_printed v @ [VisitandoNoDecisao]\<rparr>"

definition depth_visit_leaf_node :: "depth_visitor \<Rightarrow> ref \<Rightarrow> depth_visitor" where
  "depth_visit_leaf_node v a = v\<lparr>depth_printed := depth_printed v @ [FolhaAtingida]\<rparr>"

text \<open>\<open>class CountLeavesVisitor\<close>, with its handlers \<open>visit_decision_node\<close> and
  \<open>visit_leaf_node\<close>.\<close>

record count_leaves_visitor =
  leaf_count :: int
  printed :: "line list"

definition CountLeavesVisitor :: count_leaves_visitor where
  "CountLeavesVisitor = \<lparr>leaf_count = 0, printed = []\<rparr>"

definition visit_decision_node :: "count_leaves_visitor \<Rightarrow> ref \<Rightarrow> count_leaves_visitor" where
  "visit_decision_node v a = v\<lparr>printed := printed v @ [VisitandoNoDecisaoContagem]\<rparr>"

definition visit_leaf_node :: "count_leaves_visitor \<Rightarrow> ref \<Rightarrow> count_leaves_visitor" where
  "visit_leaf_node v a =
     v\<lparr>leaf_count := leaf_count v + 1,
       printed := printed v @ [FolhaEncontrada (leaf_count v + 1)]\<rparr>"

text \<open>
  \<open>node.accept(visitor)\<close>: the class of the node selects the handler; \<open>accept_depth\<close> is
  the call with a \<open>DepthVisitor\<close>, \<open>accept\<close> the call with a \<open>CountLeavesVisitor\<close>.
\<close>

definition accept_depth :: "heap \<Rightarrow> ref \<Rightarrow> depth_visitor \<Rightarrow> depth_visitor" where
  "accept_depth h a v =
     (case h ! a of
        DecisionNode p l r \<Rightarrow> depth_visit_decision_node v a
      | LeafNode p x \<Rightarrow> depth_visit_leaf_node v a)"

definition accept :: "heap \<Rightarrow> ref \<Rightarrow> count_leaves_visitor \<Rightarrow> count_leaves_visitor" where
  "accept h a v =
     (case h ! a of
        DecisionNode p l r \<Rightarrow> visit_decision_node v a
      | LeafNode p x \<Rightarrow> visit_leaf_node v a)"

section \<open>The builder and its states\<close>

datatype state = SplittingState (new_leaf_count: int) | StoppingState | PruningState

fun state_name :: "state \<Rightarrow> string" where
  "state_name (SplittingState c) = ''SplittingState''"
| "state_name StoppingState = ''StoppingState''"
| "state_name PruningState = ''PruningState''"

record tree_builder =
  root :: "ref option"
  state :: "state option"

definition TreeBuilder :: tree_builder where
  "TreeBuilder = \<lparr>root = None, state = None\<rparr>"

definition set_state :: "tree_builder \<Rightarrow> state option \<Rightarrow> tree_builder" where
  "set_state b s = b\<lparr>state := s\<rparr>"

text \<open>
  \<open>SplittingState._make_split\<close>. The recursion follows the child references of the store,
  so it need not end (a node that is its own descendant); the result is \<open>None\<close> then.
  The arguments are the store, the counter \<open>self.new_leaf_count\<close> and the node; the result
  is the store and the counter after the call.
\<close>

partial_function (option) make_split :: "heap \<Rightarrow> int \<Rightarrow> ref \<Rightarrow> (heap \<times> int) option" where
  "make_split h c a =
     (case h ! a of
        LeafNode p v \<Rightarrow> Some (h, c)
      | DecisionNode p l r \<Rightarrow>
          Option.bind
            (case l of
               None \<Rightarrow>
                 (let c1 = c + 1;
                      (h1, n) = alloc h (LeafNode (Some a) (format_02d c1))
                  in Some (h1[a := set_left_child (Some n) (h1 ! a)], c1))
             | Some la \<Rightarrow> make_split h c la)
            (\<lambda>(h2, c2).
               case right_child (h2 ! a) of
                 None \<Rightarrow>
                   (let c3 = c2 + 1;
                        (h3, n) = alloc h2 (LeafNode (Some a) (format_02d c3))
                    in Some (h3[a := set_right_child (Some n) (h3 ! a)], c3))
               | Some ra \<Rightarrow> make_split h2 c2 ra))"

declare make_split.simps [code]

text \<open>
  \<open>State.handle(builder)\<close> for the three states. The arguments are the state object, the
  builder, the store and the lines printed so far; all four come back updated.
\<close>

definition handle ::
  "state \<Rightarrow> tree_builder \<Rightarrow> heap \<Rightarrow> line list \<Rightarrow> (state \<times> tree_builder \<times> heap \<times> line list) option"
where
  "handle s b h out =
     (case s of
        SplittingState c \<Rightarrow>
          (let (a, b1, h1, out1) =
                 (case root b of
                    None \<Rightarrow>
                      (let (h', n) = alloc h (DecisionNode None None None)
                       in (n, b\<lparr>root := Some n\<rparr>, h', out @ [CriadaRaiz]))
                  | Some a \<Rightarrow> (a, b, h, out))
           in Option.bind (make_split h1 c a)
                (\<lambda>(h2, c2). Some (SplittingState c2, b1, h2, out1 @ [HandlingSplitting])))
      | StoppingState \<Rightarrow> Some (s, b, h, out @ [HandlingStopping])
      | PruningState \<Rightarrow> Some (s, b, h, out @ [HandlingPruning]))"

text \<open>\<open>TreeBuilder.run_step\<close>: the state object is shared with the builder, so what
  \<open>handle\<close> did to it is what the builder holds afterwards.\<close>

definition run_step ::
  "tree_builder \<Rightarrow> heap \<Rightarrow> line list \<Rightarrow> (tree_builder \<times> heap \<times> line list) option"
where
  "run_step b h out =
     (case state b of
        Some s \<Rightarrow>
          Option.bind (handle s b h (out @ [EstadoAtual (state_name s)]))
            (\<lambda>(s', b', h', out'). Some (b'\<lparr>state := Some s'\<rparr>, h', out'))
      | None \<Rightarrow> Some (b, h, out @ [NenhumEstado]))"

text \<open>\<open>TreeBuilder.build_tree\<close>\<close>

definition build_tree ::
  "tree_builder \<Rightarrow> heap \<Rightarrow> line list \<Rightarrow> (tree_builder \<times> heap \<times> line list) option"
where
  "build_tree b h out =
     Option.bind (run_step (set_state b (Some (SplittingState 0))) h out)
       (\<lambda>(b1, h1, out1).
          Option.bind (run_step (set_state b1 (Some StoppingState)) h1 out1)
            (\<lambda>(b2, h2, out2). run_step (set_state b2 (Some PruningState)) h2 out2))"

section \<open>The pre-order iterator\<close>

record iterator =
  it_root :: "ref option"
  stack :: "ref list"

text \<open>\<open>Iterator.__init__\<close>: the stack is a Python list, its top is the last element.\<close>

definition Iterator_init :: "pyval \<Rightarrow> line list \<Rightarrow> line list \<times> (error + iterator)" where
  "Iterator_init r out =
     (case r of
        PyNone \<Rightarrow> (out @ [AvisoRaizNone], Inr \<lparr>it_root = None, stack = []\<rparr>)
      | NodeRef a \<Rightarrow> (out, Inr \<lparr>it_root = Some a, stack = [a]\<rparr>)
      | _ \<Rightarrow> (out, Inl (ValueError ''Root must be an instance of Node.'')))"

text \<open>\<open>PreOrderIterator.__next__\<close>: the iterator after the call and the node returned or
  the exception raised.\<close>

definition PreOrderIterator_next :: "heap \<Rightarrow> iterator \<Rightarrow> iterator \<times> (error + ref)" where
  "PreOrderIterator_next h it =
     (if stack it = [] then (it, Inl StopIteration)
      else
        let current_node = last (stack it);
            s1 = butlast (stack it);
            s2 = (case h ! current_node of
                    DecisionNode p l r \<Rightarrow>
                      (let s1r = (case r of Some x \<Rightarrow> s1 @ [x] | None \<Rightarrow> s1)
                       in (case l of Some x \<Rightarrow> s1r @ [x] | None \<Rightarrow> s1r))
                  | LeafNode p v \<Rightarrow> s1)
        in (it\<lparr>stack := s2\<rparr>, Inr current_node))"

text \<open>
  \<open>for node in it: body\<close>, as in the demonstration script: \<open>__next__\<close> is called until it
  raises \<open>StopIteration\<close>, which ends the loop; any other exception leaves the loop. The
  loop need not end (a store with a cycle), the result is \<open>None\<close> then.
\<close>

partial_function (option) for_in ::
  "heap \<Rightarrow> ('s \<Rightarrow> ref \<Rightarrow> 's) \<Rightarrow> iterator \<Rightarrow> 's \<Rightarrow> (iterator \<times> (error + 's)) option"
where
  "for_in h body it s =
     (case PreOrderIterator_next h it of
        (it', Inl e) \<Rightarrow>
          (case e of StopIteration \<Rightarrow> Some (it', Inr s) | _ \<Rightarrow> Some (it', Inl e))
      | (it', Inr node) \<Rightarrow> for_in h body it' (body s node))"

declare for_in.simps [code]

text \<open>The nodes a full traversal yields, in order: \<open>[node for node in it]\<close>.\<close>

definition traversal :: "heap \<Rightarrow> iterator \<Rightarrow> (iterator \<times> (error + ref list)) option" where
  "traversal h it = for_in h (\<lambda>xs node. xs @ [node]) it []"

text \<open>The results of the first \<open>n\<close> calls of \<open>next(it)\<close>.\<close>

fun requests :: "nat \<Rightarrow> heap \<Rightarrow> iterator \<Rightarrow> (error + ref) list" where
  "requests 0 h it = []"
| "requests (Suc n) h it =
     (case PreOrderIterator_next h it of (it', res) \<Rightarrow> res # requests n h it')"

text \<open>
  The demonstration script: build the tree from a fresh builder, construct the iterator
  for the builder's root, and let every node yielded accept the depth visitor and then
  the leaf-counting visitor.
\<close>

definition demo ::
  "heap \<Rightarrow> (tree_builder \<times> heap \<times> (error + depth_visitor \<times> count_leaves_visitor)) option"
where
  "demo h =
     Option.bind (build_tree TreeBuilder h [])
       (\<lambda>(builder, h1, out1).
          case Iterator_init (case root builder of None \<Rightarrow> PyNone | Some a \<Rightarrow> NodeRef a) out1 of
            (out2, Inl e) \<Rightarrow> Some (builder, h1, Inl e)
          | (out2, Inr it) \<Rightarrow>
              Option.bind
                (for_in h1 (\<lambda>(dv, lv) node. (accept_depth h1 node dv, accept h1 node lv)) it
                   (DepthVisitor, CountLeavesVisitor))
                (\<lambda>(it', res). Some (builder, h1, res)))"

section \<open>Trees in the store\<close>

text \<open>
  The shape below a reference, unfolded: \<open>Absent\<close> for an empty slot (or an absent root),
  a leaf with its reference and value, a decision node with its reference and the shapes
  below its two slots. A store with a cycle below the reference has no such shape.
\<close>

datatype tree = Absent | TLeaf ref string | TDec ref tree tree

fun root_ref :: "tree \<Rightarrow> ref option" where
  "root_ref Absent = None"
| "root_ref (TLeaf a v) = Some a"
| "root_ref (TDec a l r) = Some a"

text \<open>The references of a shape: the node, then the left subtree, then the right one.\<close>

fun refs :: "tree \<Rightarrow> ref list" where
  "refs Absent = []"
| "refs (TLeaf a v) = [a]"
| "refs (TDec a l r) = a # refs l @ refs r"

text \<open>\<open>repr h t\<close>: the objects of the store \<open>h\<close> have the shape \<open>t\<close>.\<close>

fun repr :: "heap \<Rightarrow> tree \<Rightarrow> bool" where
  "repr h Absent = True"
| "repr h (TLeaf a v) =
     (a < length h \<and> (case h ! a of LeafNode p w \<Rightarrow> w = v | DecisionNode p l r \<Rightarrow> False))"
| "repr h (TDec a l r) =
     (a < length h \<and>
      (case h ! a of
         DecisionNode p x y \<Rightarrow> x = root_ref l \<and> y = root_ref r
       | LeafNode p w \<Rightarrow> False) \<and>
      repr h l \<and> repr h r)"

text \<open>
  \<open>is_tree h x t\<close>: below the reference (or \<open>None\<close>) \<open>x\<close> the store holds a finite tree of
  shape \<open>t\<close> in which no node object occurs twice.
\<close>

definition is_tree :: "heap \<Rightarrow> ref option \<Rightarrow> tree \<Rightarrow> bool" where
  "is_tree h x t = (root_ref t = x \<and> repr h t \<and> distinct (refs t))"

text \<open>The nodes reachable from a node through child slots.\<close>

inductive reach :: "heap \<Rightarrow> ref \<Rightarrow> ref \<Rightarrow> bool" for h :: heap and a :: ref where
  reach_self: "reach h a a"
| reach_left: "reach h a b \<Longrightarrow> h ! b = DecisionNode p (Some c) r \<Longrightarrow> reach h a c"
| reach_right: "reach h a b \<Longrightarrow> h ! b = DecisionNode p l (Some c) \<Longrightarrow> reach h a c"

text \<open>The number of empty slots of a shape, and the number of its leaves.\<close>

fun gaps :: "tree \<Rightarrow> nat" where
  "gaps Absent = 1"
| "gaps (TLeaf a v) = 0"
| "gaps (TDec a l r) = gaps l + gaps r"

fun leaves :: "tree \<Rightarrow> nat" where
  "leaves Absent = 0"
| "leaves (TLeaf a v) = 1"
| "leaves (TDec a l r) = leaves l + leaves r"

text \<open>
  The shape with every empty slot filled, left before right, by leaves with consecutive
  references from \<open>n\<close> and consecutive labels from \<open>c + 1\<close>.
\<close>

fun fill :: "ref \<Rightarrow> int \<Rightarrow> tree \<Rightarrow> tree" where
  "fill n c Absent = TLeaf n (format_02d (c + 1))"
| "fill n c (TLeaf a v) = TLeaf a v"
| "fill n c (TDec a l r) = TDec a (fill n c l) (fill (n + gaps l) (c + int (gaps l)) r)"

text \<open>
  What a later store keeps of an object of an earlier one: a leaf is the same, a decision
  node has the same parent and the same node in every slot that was occupied.
\<close>

definition untouched :: "node \<Rightarrow> node \<Rightarrow> bool" where
  "untouched n n' =
     (case n of
        LeafNode p v \<Rightarrow> n' = n
      | DecisionNode p l r \<Rightarrow>
          (case n' of
             DecisionNode p' l' r' \<Rightarrow> p' = p \<and> (l \<noteq> None \<longrightarrow> l' = l) \<and> (r \<noteq> None \<longrightarrow> r' = r)
           | LeafNode p' v' \<Rightarrow> False))"

text \<open>The decimal value of a string of digits.\<close>

definition digit_value :: "char \<Rightarrow> nat" where
  "digit_value ch = of_char ch - 48"

definition decimal_value :: "string \<Rightarrow> nat" where
  "decimal_value s = foldl (\<lambda>acc ch. 10 * acc + digit_value ch) 0 s"

section \<open>Auxiliary notions for the proofs\<close>

text \<open>The nodes of the tree below a root: those reachable from it, none for an absent root.\<close>

definition nodes_of :: "heap \<Rightarrow> ref option \<Rightarrow> ref set" where
  "nodes_of h x = (case x of None \<Rightarrow> {} | Some a \<Rightarrow> {b. reach h a b})"

text \<open>
  The iterator that \<open>Iterator.__init__\<close> makes for a root that is \<open>None\<close> or a node, and the
  same iterator once its stack is empty.
\<close>

definition iterator_at :: "ref option \<Rightarrow> iterator" where
  "iterator_at x = \<lparr>it_root = x, stack = (case x of None \<Rightarrow> [] | Some a \<Rightarrow> [a])\<rparr>"

definition exhausted :: "ref option \<Rightarrow> iterator" where
  "exhausted x = \<lparr>it_root = x, stack = []\<rparr>"

text \<open>
  \<open>new_slot h h' b n\<close>: the decision node \<open>b\<close> had an empty slot in \<open>h\<close> that holds \<open>n\<close> in
  \<open>h'\<close>.
\<close>

definition new_slot :: "heap \<Rightarrow> heap \<Rightarrow> ref \<Rightarrow> ref \<Rightarrow> bool" where
  "new_slot h h' b n =
     (is_decision (h ! b) \<and>
      (left_child (h ! b) = None \<and> left_child (h' ! b) = Some n
       \<or> right_child (h ! b) = None \<and> right_child (h' ! b) = Some n))"

text \<open>
  What \<open>make_split\<close> does to a store \<open>h\<close> holding a tree of shape \<open>t\<close>, when it starts with
  the counter at \<open>c\<close> and may only write to the objects in \<open>S\<close>: it creates one object per
  empty slot, leaves every object outside \<open>S\<close> as it was, keeps what \<open>untouched\<close> says of
  every old object, produces the filled shape, and the \<open>i\<close>-th new object is a leaf with
  the \<open>i\<close>-th label whose parent is the node of \<open>S\<close> whose empty slot it fills.
\<close>

definition split_post :: "heap \<Rightarrow> int \<Rightarrow> tree \<Rightarrow> ref set \<Rightarrow> heap \<Rightarrow> bool" where
  "split_post h c t S h' =
     (length h' = length h + gaps t
      \<and> (\<forall>b<length h. b \<notin> S \<longrightarrow> h' ! b = h ! b)
      \<and> (\<forall>b<length h. untouched (h ! b) (h' ! b))
      \<and> repr h' (fill (length h) c t)
      \<and> (\<forall>i<gaps t. \<exists>b\<in>S.
            h' ! (length h + i) = LeafNode (Some b) (format_02d (c + 1 + int i))
            \<and> new_slot h h' b (length h + i)))"

text \<open>The stack of the iterator holds the roots of the shapes still to be traversed.\<close>

definition present :: "tree \<Rightarrow> tree list" where
  "present t = (if t = Absent then [] else [t])"

definition on_stack :: "heap \<Rightarrow> ref list \<Rightarrow> tree list \<Rightarrow> bool" where
  "on_stack h stk ts = list_all2 (\<lambda>x t. root_ref t = Some x \<and> repr h t) stk ts"

text \<open>The root, the store and the shape that \<open>handle\<close> passes to \<open>make_split\<close>.\<close>

definition seeded_root :: "heap \<Rightarrow> ref option \<Rightarrow> ref" where
  "seeded_root h x = (case x of None \<Rightarrow> length h | Some a \<Rightarrow> a)"

definition seeded_heap :: "heap \<Rightarrow> ref option \<Rightarrow> heap" where
  "seeded_heap h x = (case x of None \<Rightarrow> h @ [DecisionNode None None None] | Some a \<Rightarrow> h)"

definition seeded_tree :: "heap \<Rightarrow> tree \<Rightarrow> tree" where
  "seeded_tree h t = (case t of Absent \<Rightarrow> TDec (length h) Absent Absent | _ \<Rightarrow> t)"

text \<open>
  The outcome of the splitting stage on a store \<open>h\<close> whose tree has the root \<open>x\<close>, seen in
  the store \<open>h'\<close> after the stage, where the root is \<open>a\<close>: every decision node reachable
  from \<open>a\<close> has both slots occupied; every object of \<open>h\<close> keeps what \<open>untouched\<close> says; and
  every slot of a decision node of the old tree that was empty holds an object created by
  the stage, which is a leaf.
\<close>

definition completed :: "heap \<Rightarrow> ref option \<Rightarrow> ref \<Rightarrow> heap \<Rightarrow> bool" where
  "completed h x a h' =
     ((\<forall>n. reach h' a n \<and> is_decision (h' ! n) \<longrightarrow>
            left_child (h' ! n) \<noteq> None \<and> right_child (h' ! n) \<noteq> None)
      \<and> (\<forall>n<length h. untouched (h ! n) (h' ! n))
      \<and> (\<forall>n\<in>nodes_of h x. is_decision (h ! n) \<longrightarrow>
            (left_child (h ! n) = None \<longrightarrow>
               (\<exists>m. length h \<le> m \<and> m < length h' \<and> left_child (h' ! n) = Some m
                    \<and> \<not> is_decision (h' ! m)))
          \<and> (right_child (h ! n) = None \<longrightarrow>
               (\<exists>m. length h \<le> m \<and> m < length h' \<and> right_child (h' ! n) = Some m
                    \<and> \<not> is_decision (h' ! m)))))"

text \<open>The values of the leaves created between two stores, in the order of creation.\<close>

definition new_leaf_labels :: "heap \<Rightarrow> heap \<Rightarrow> string list" where
  "new_leaf_labels h h' =
     map (\<lambda>n. val (h' ! n)) (filter (\<lambda>n. \<not> is_decision (h' ! n)) [length h ..< length h'])"

text \<open>The store after \<open>build_tree\<close> on a fresh builder, started in the store \<open>h\<close>.\<close>

definition fresh_store :: "heap \<Rightarrow> heap" where
  "fresh_store h =
     h @ [DecisionNode None (Some (length h + 1)) (Some (length h + 2)),
          LeafNode (Some (length h)) ''01'', LeafNode (Some (length h)) ''02'']"

text \<open>\<open>holds h d m\<close>: the decision node \<open>d\<close> holds \<open>m\<close> in one of its two slots.\<close>

definition holds :: "heap \<Rightarrow> ref \<Rightarrow> ref \<Rightarrow> bool" where
  "holds h d m =
     (is_decision (h ! d) \<and> (left_child (h ! d) = Some m \<or> right_child (h ! d) = Some m))"

section \<open>The effect of splitting on a tree\<close>

lemma untouched_refl [simp]: "untouched n n"
  by (cases n) (auto simp: untouched_def)

lemma untouched_trans: "untouched n1 n2 \<Longrightarrow> untouched n2 n3 \<Longrightarrow> untouched n1 n3"
  by (cases n1; cases n2; cases n3) (auto simp: untouched_def)

lemma untouched_decision: "untouched n n' \<Longrightarrow> is_decision n' = is_decision n"
  by (cases n; cases n') (auto simp: untouched_def)

lemma untouched_left: "untouched n n' \<Longrightarrow> is_decision n \<Longrightarrow> left_child n = Some x \<Longrightarrow> left_child n' = Some x"
  by (cases n; cases n') (auto simp: untouched_def)

lemma untouched_right: "untouched n n' \<Longrightarrow> is_decision n \<Longrightarrow> right_child n = Some x \<Longrightarrow> right_child n' = Some x"
  by (cases n; cases n') (auto simp: untouched_def)

lemma untouched_left_None: "untouched n n' \<Longrightarrow> is_decision n' \<Longrightarrow> left_child n' = None \<Longrightarrow> left_child n = None"
  by (cases n; cases n') (auto simp: untouched_def)

lemma untouched_right_None: "untouched n n' \<Longrightarrow> is_decision n' \<Longrightarrow> right_child n' = None \<Longrightarrow> right_child n = None"
  by (cases n; cases n') (auto simp: untouched_def)

lemma untouched_parent: "untouched n n' \<Longrightarrow> parent n' = parent n"
  by (cases n; cases n') (auto simp: untouched_def)

lemma new_slot_later:
  "new_slot h h1 b n \<Longrightarrow> untouched (h1 ! b) (h2 ! b) \<Longrightarrow> untouched (h ! b) (h1 ! b) \<Longrightarrow> new_slot h h2 b n"
  unfolding new_slot_def
  by (metis untouched_decision untouched_left untouched_right)

lemma new_slot_earlier:
  "new_slot h1 h2 b n \<Longrightarrow> untouched (h ! b) (h1 ! b) \<Longrightarrow> new_slot h h2 b n"
  unfolding new_slot_def
  by (metis untouched_decision untouched_left_None untouched_right_None)

lemma repr_bound: "repr h t \<Longrightarrow> b \<in> set (refs t) \<Longrightarrow> b < length h"
  by (induction t) auto

lemma repr_frame:
  "repr h t \<Longrightarrow> length h \<le> length h' \<Longrightarrow> (\<And>b. b \<in> set (refs t) \<Longrightarrow> h' ! b = h ! b) \<Longrightarrow> repr h' t"
  by (induction t) auto

lemma root_ref_fill: "t \<noteq> Absent \<Longrightarrow> root_ref (fill n c t) = root_ref t"
  by (cases t) auto

lemma root_ref_None: "root_ref t = None \<longleftrightarrow> t = Absent"
  by (cases t) auto

lemma root_ref_in_refs: "root_ref t = Some a \<Longrightarrow> a \<in> set (refs t)"
  by (cases t) auto

lemma set_refs_fill: "set (refs (fill n c t)) = set (refs t) \<union> {n ..< n + gaps t}"
  by (induction t arbitrary: n c) auto

lemma split_post_mono: "split_post h c t S h' \<Longrightarrow> S \<subseteq> S' \<Longrightarrow> split_post h c t S' h'"
  unfolding split_post_def by blast

lemma split_post_compose:
  assumes L: "split_post h c l (insert a (set (refs l))) h1"
    and R: "split_post h1 (c + int (gaps l)) r (insert a (set (refs r))) h2"
    and repr: "repr h (TDec a l r)" and dist: "distinct (refs (TDec a l r))"
    and a2: "h2 ! a = DecisionNode p (root_ref (fill (length h) c l))
                        (root_ref (fill (length h1) (c + int (gaps l)) r))"
  shows "split_post h c (TDec a l r) (set (refs (TDec a l r))) h2"
proof -
  have len1: "length h1 = length h + gaps l" and len2: "length h2 = length h1 + gaps r"
    using L R by (simp_all add: split_post_def)
  have fr1: "\<And>b. b < length h \<Longrightarrow> b \<notin> insert a (set (refs l)) \<Longrightarrow> h1 ! b = h ! b"
    using L by (simp add: split_post_def)
  have fr2: "\<And>b. b < length h1 \<Longrightarrow> b \<notin> insert a (set (refs r)) \<Longrightarrow> h2 ! b = h1 ! b"
    using R by (simp add: split_post_def)
  have un1: "\<And>b. b < length h \<Longrightarrow> untouched (h ! b) (h1 ! b)"
    using L by (simp add: split_post_def)
  have un2: "\<And>b. b < length h1 \<Longrightarrow> untouched (h1 ! b) (h2 ! b)"
    using R by (simp add: split_post_def)
  have a: "a < length h" using repr by simp
  have bl: "\<And>b. b \<in> set (refs l) \<Longrightarrow> b < length h"
    and br: "\<And>b. b \<in> set (refs r) \<Longrightarrow> b < length h"
    using repr repr_bound by auto
  have P1: "length h2 = length h + gaps (TDec a l r)"
    using len1 len2 by simp
  have P2: "\<forall>b<length h. b \<notin> set (refs (TDec a l r)) \<longrightarrow> h2 ! b = h ! b"
    using fr1 fr2 len1 by auto
  have P3: "\<forall>b<length h. untouched (h ! b) (h2 ! b)"
    using un1 un2 len1 untouched_trans by (metis trans_less_add1)
  have "repr h1 (fill (length h) c l)" using L by (simp add: split_post_def)
  moreover have "h2 ! b = h1 ! b" if "b \<in> set (refs (fill (length h) c l))" for b
  proof -
    from that have "b \<in> set (refs l) \<or> (length h \<le> b \<and> b < length h + gaps l)"
      by (auto simp: set_refs_fill)
    then have "b < length h1 \<and> b \<noteq> a \<and> b \<notin> set (refs r)"
    proof
      assume m: "b \<in> set (refs l)"
      have "b < length h1" using bl [OF m] len1 by simp
      moreover have "b \<noteq> a" "b \<notin> set (refs r)" using m dist by auto
      ultimately show ?thesis by simp
    next
      assume m: "length h \<le> b \<and> b < length h + gaps l"
      have "b < length h1" using m len1 by simp
      moreover have "b \<noteq> a" using m a by simp
      moreover have "b \<notin> set (refs r)" using m br [of b] by auto
      ultimately show ?thesis by simp
    qed
    then show ?thesis using fr2 by simp
  qed
  ultimately have rl: "repr h2 (fill (length h) c l)"
    using repr_frame [of h1 _ h2] len2 by simp
  have rr: "repr h2 (fill (length h + gaps l) (c + int (gaps l)) r)"
    using R len1 by (simp add: split_post_def)
  have P4: "repr h2 (fill (length h) c (TDec a l r))"
    using rl rr a2 a len1 P1 by simp
  have P5: "\<exists>b\<in>set (refs (TDec a l r)).
              h2 ! (length h + i) = LeafNode (Some b) (format_02d (c + 1 + int i))
              \<and> new_slot h h2 b (length h + i)"
    if i: "i < gaps (TDec a l r)" for i
  proof (cases "i < gaps l")
    case True
    with L obtain b where b: "b \<in> insert a (set (refs l))"
      and nb: "h1 ! (length h + i) = LeafNode (Some b) (format_02d (c + 1 + int i))"
      and ns: "new_slot h h1 b (length h + i)"
      unfolding split_post_def by blast
    have blt: "b < length h" using b a bl by auto
    have "length h + i < length h1" "length h + i \<notin> insert a (set (refs r))"
      using True len1 a br by auto
    then have "h2 ! (length h + i) = h1 ! (length h + i)" using fr2 by simp
    moreover have "new_slot h h2 b (length h + i)"
      using new_slot_later [OF ns] un1 [OF blt] un2 [of b] blt len1 by simp
    ultimately show ?thesis using b nb by auto
  next
    case False
    define j where "j = i - gaps l"
    have j: "j < gaps r" "i = gaps l + j" using False i by (auto simp: j_def)
    with R obtain b where b: "b \<in> insert a (set (refs r))"
      and nb: "h2 ! (length h1 + j) = LeafNode (Some b) (format_02d (c + int (gaps l) + 1 + int j))"
      and ns: "new_slot h1 h2 b (length h1 + j)"
      unfolding split_post_def by blast
    have blt: "b < length h" using b a br by auto
    have idx: "length h1 + j = length h + i" using j len1 by simp
    have ceq: "c + int (gaps l) + 1 + int j = c + 1 + int i" using j by simp
    have "new_slot h h2 b (length h1 + j)"
      using new_slot_earlier [OF ns] un1 [OF blt] by simp
    then have "new_slot h h2 b (length h + i)" unfolding idx .
    moreover from nb have "h2 ! (length h + i) = LeafNode (Some b) (format_02d (c + 1 + int i))"
      unfolding idx ceq .
    moreover have "b \<in> set (refs (TDec a l r))" using b by auto
    ultimately show ?thesis by blast
  qed
  show ?thesis
    unfolding split_post_def using P1 P2 P3 P4 P5 by blast
qed

lemma split_post_new_left:
  assumes a: "a < length h" and ha: "h ! a = DecisionNode p None rr"
    and h1: "h1 = (h @ [LeafNode (Some a) (format_02d (c + 1))])[a := DecisionNode p (Some (length h)) rr]"
  shows "split_post h c Absent {a} h1"
proof -
  have n: "h1 ! length h = LeafNode (Some a) (format_02d (c + 1))"
    using a h1 by (simp add: nth_list_update nth_append)
  have aa: "h1 ! a = DecisionNode p (Some (length h)) rr"
    using a h1 by (simp add: nth_list_update nth_append)
  have fr: "\<And>b. b < length h \<Longrightarrow> b \<noteq> a \<Longrightarrow> h1 ! b = h ! b"
    using h1 by (simp add: nth_list_update nth_append)
  have un: "untouched (h ! b) (h1 ! b)" if "b < length h" for b
    using fr [OF that] ha aa by (cases "b = a") (auto simp: untouched_def)
  have ns: "new_slot h h1 a (length h)"
    using ha aa by (simp add: new_slot_def)
  show ?thesis
    unfolding split_post_def using n fr un ns h1 by simp
qed

lemma split_post_new_right:
  assumes a: "a < length h" and ha: "h ! a = DecisionNode p ll None"
    and h1: "h1 = (h @ [LeafNode (Some a) (format_02d (c + 1))])[a := DecisionNode p ll (Some (length h))]"
  shows "split_post h c Absent {a} h1"
proof -
  have n: "h1 ! length h = LeafNode (Some a) (format_02d (c + 1))"
    using a h1 by (simp add: nth_list_update nth_append)
  have aa: "h1 ! a = DecisionNode p ll (Some (length h))"
    using a h1 by (simp add: nth_list_update nth_append)
  have fr: "\<And>b. b < length h \<Longrightarrow> b \<noteq> a \<Longrightarrow> h1 ! b = h ! b"
    using h1 by (simp add: nth_list_update nth_append)
  have un: "untouched (h ! b) (h1 ! b)" if "b < length h" for b
    using fr [OF that] ha aa by (cases "b = a") (auto simp: untouched_def)
  have ns: "new_slot h h1 a (length h)"
    using ha aa by (simp add: new_slot_def)
  show ?thesis
    unfolding split_post_def using n fr un ns h1 by simp
qed

text \<open>The two halves of the body of \<open>make_split\<close> at a decision node.\<close>

lemma left_step:
  assumes a: "a < length h" and ha: "h ! a = DecisionNode p (root_ref l) rr"
    and nl: "a \<notin> set (refs l)"
    and IH: "\<And>la. root_ref l = Some la \<Longrightarrow>
               \<exists>h1. make_split h c la = Some (h1, c + int (gaps l))
                    \<and> split_post h c l (set (refs l)) h1"
  shows "\<exists>h1. (case root_ref l of
                 None \<Rightarrow>
                   (let c1 = c + 1;
                        (h1, n) = alloc h (LeafNode (Some a) (format_02d c1))
                    in Some (h1[a := set_left_child (Some n) (h1 ! a)], c1))
               | Some la \<Rightarrow> make_split h c la) = Some (h1, c + int (gaps l))
             \<and> split_post h c l (insert a (set (refs l))) h1
             \<and> h1 ! a = DecisionNode p (root_ref (fill (length h) c l)) rr"
proof (cases "root_ref l")
  case None
  then have l: "l = Absent" by (simp add: root_ref_None)
  define h1 where "h1 = (h @ [LeafNode (Some a) (format_02d (c + 1))])[a := DecisionNode p (Some (length h)) rr]"
  have "split_post h c Absent {a} h1"
    using split_post_new_left [OF a _ h1_def] ha l by simp
  then have sp: "split_post h c l (insert a (set (refs l))) h1"
    using l by simp
  have "h1 ! a = DecisionNode p (Some (length h)) rr"
    using a by (simp add: h1_def nth_list_update nth_append)
  then have h1a: "h1 ! a = DecisionNode p (root_ref (fill (length h) c l)) rr"
    using l by simp
  have "(let c1 = c + 1;
             (h1, n) = alloc h (LeafNode (Some a) (format_02d c1))
         in Some (h1[a := set_left_child (Some n) (h1 ! a)], c1)) = Some (h1, c + int (gaps l))"
    using a ha l by (simp add: alloc_def nth_append h1_def Let_def)
  then show ?thesis using None sp h1a by simp
next
  case (Some la)
  from IH [OF Some] obtain h1 where ms: "make_split h c la = Some (h1, c + int (gaps l))"
    and sp: "split_post h c l (set (refs l)) h1" by blast
  have "h1 ! a = h ! a" using sp a nl by (simp add: split_post_def)
  moreover have "l \<noteq> Absent" using Some by auto
  ultimately have "h1 ! a = DecisionNode p (root_ref (fill (length h) c l)) rr"
    using ha by (simp add: root_ref_fill)
  moreover have "split_post h c l (insert a (set (refs l))) h1"
    using split_post_mono [OF sp] by blast
  ultimately show ?thesis using Some ms by simp
qed

lemma right_step:
  assumes a: "a < length h" and ha: "h ! a = DecisionNode p ll (root_ref r)"
    and nl: "a \<notin> set (refs r)"
    and IH: "\<And>ra. root_ref r = Some ra \<Longrightarrow>
               \<exists>h1. make_split h c ra = Some (h1, c + int (gaps r))
                    \<and> split_post h c r (set (refs r)) h1"
  shows "\<exists>h1. (case right_child (h ! a) of
                 None \<Rightarrow>
                   (let c3 = c + 1;
                        (h3, n) = alloc h (LeafNode (Some a) (format_02d c3))
                    in Some (h3[a := set_right_child (Some n) (h3 ! a)], c3))
               | Some ra \<Rightarrow> make_split h c ra) = Some (h1, c + int (gaps r))
             \<and> split_post h c r (insert a (set (refs r))) h1
             \<and> h1 ! a = DecisionNode p ll (root_ref (fill (length h) c r))"
proof (cases "root_ref r")
  case None
  then have l: "r = Absent" by (simp add: root_ref_None)
  define h1 where "h1 = (h @ [LeafNode (Some a) (format_02d (c + 1))])[a := DecisionNode p ll (Some (length h))]"
  have "split_post h c Absent {a} h1"
    using split_post_new_right [OF a _ h1_def] ha l by simp
  then have sp: "split_post h c r (insert a (set (refs r))) h1"
    using l by simp
  have "h1 ! a = DecisionNode p ll (Some (length h))"
    using a by (simp add: h1_def nth_list_update nth_append)
  then have h1a: "h1 ! a = DecisionNode p ll (root_ref (fill (length h) c r))"
    using l by simp
  have "(let c3 = c + 1;
             (h3, n) = alloc h (LeafNode (Some a) (format_02d c3))
         in Some (h3[a := set_right_child (Some n) (h3 ! a)], c3)) = Some (h1, c + int (gaps r))"
    using a ha l by (simp add: alloc_def nth_append h1_def Let_def)
  then show ?thesis using None ha sp h1a by simp
next
  case (Some ra)
  from IH [OF Some] obtain h1 where ms: "make_split h c ra = Some (h1, c + int (gaps r))"
    and sp: "split_post h c r (set (refs r)) h1" by blast
  have "h1 ! a = h ! a" using sp a nl by (simp add: split_post_def)
  moreover have "r \<noteq> Absent" using Some by auto
  ultimately have "h1 ! a = DecisionNode p ll (root_ref (fill (length h) c r))"
    using ha by (simp add: root_ref_fill)
  moreover have "split_post h c r (insert a (set (refs r))) h1"
    using split_post_mono [OF sp] by blast
  ultimately show ?thesis using Some ms ha by simp
qed

lemma make_split_tree:
  assumes "repr h t" and "distinct (refs t)" and "root_ref t = Some a"
  shows "\<exists>h'. make_split h c a = Some (h', c + int (gaps t))
             \<and> split_post h c t (set (refs t)) h'"
  using assms
proof (induction t arbitrary: h c a)
  case Absent
  then show ?case by simp
next
  case (TLeaf b v)
  then have "make_split h c a = Some (h, c)"
    by (subst make_split.simps) (auto split: node.splits)
  moreover have "split_post h c (TLeaf b v) (set (refs (TLeaf b v))) h"
    using TLeaf by (simp add: split_post_def)
  ultimately show ?case by simp
next
  case (TDec b l r)
  then have ab: "a = b" by simp
  from TDec.prems obtain p where a: "a < length h"
    and ha: "h ! a = DecisionNode p (root_ref l) (root_ref r)"
    and rl: "repr h l" and rr: "repr h r"
    unfolding ab by (auto split: node.splits)
  from TDec.prems have dl: "distinct (refs l)" and dr: "distinct (refs r)"
    and nl: "a \<notin> set (refs l)" and nr: "a \<notin> set (refs r)"
    and disj: "set (refs l) \<inter> set (refs r) = {}"
    unfolding ab by auto
  have "\<exists>h1. make_split h c la = Some (h1, c + int (gaps l)) \<and> split_post h c l (set (refs l)) h1"
    if "root_ref l = Some la" for la
    using TDec.IH(1) [OF rl dl that] .
  from left_step [OF a ha nl this]
  obtain h1 where L: "(case root_ref l of
                 None \<Rightarrow>
                   (let c1 = c + 1;
                        (h1, n) = alloc h (LeafNode (Some a) (format_02d c1))
                    in Some (h1[a := set_left_child (Some n) (h1 ! a)], c1))
               | Some la \<Rightarrow> make_split h c la) = Some (h1, c + int (gaps l))"
    and spl: "split_post h c l (insert a (set (refs l))) h1"
    and h1a: "h1 ! a = DecisionNode p (root_ref (fill (length h) c l)) (root_ref r)"
    by blast
  have len1: "length h1 = length h + gaps l" using spl by (simp add: split_post_def)
  have "h1 ! x = h ! x" if "x \<in> set (refs r)" for x
  proof -
    have "x < length h" using repr_bound [OF rr that] .
    moreover have "x \<notin> insert a (set (refs l))" using that nr disj by auto
    ultimately show ?thesis using spl by (simp add: split_post_def)
  qed
  then have rr1: "repr h1 r" using repr_frame [OF rr] len1 by simp
  have a1: "a < length h1" using a len1 by simp
  have "\<exists>h2. make_split h1 (c + int (gaps l)) ra = Some (h2, c + int (gaps l) + int (gaps r))
             \<and> split_post h1 (c + int (gaps l)) r (set (refs r)) h2"
    if "root_ref r = Some ra" for ra
    using TDec.IH(2) [OF rr1 dr that] .
  from right_step [OF a1 h1a nr this]
  obtain h2 where R: "(case right_child (h1 ! a) of
                 None \<Rightarrow>
                   (let c3 = c + int (gaps l) + 1;
                        (h3, n) = alloc h1 (LeafNode (Some a) (format_02d c3))
                    in Some (h3[a := set_right_child (Some n) (h3 ! a)], c3))
               | Some ra \<Rightarrow> make_split h1 (c + int (gaps l)) ra)
               = Some (h2, c + int (gaps l) + int (gaps r))"
    and spr: "split_post h1 (c + int (gaps l)) r (insert a (set (refs r))) h2"
    and h2a: "h2 ! a = DecisionNode p (root_ref (fill (length h) c l))
                         (root_ref (fill (length h1) (c + int (gaps l)) r))"
    by blast
  have "make_split h c a = Some (h2, c + int (gaps (TDec b l r)))"
    by (subst make_split.simps) (simp add: ha L R add.assoc)
  moreover have "split_post h c (TDec b l r) (set (refs (TDec b l r))) h2"
    using split_post_compose [OF spl spr _ _ h2a] TDec.prems ab by simp
  ultimately show ?case by blast
qed

section \<open>The splitting stage and the build pass\<close>

lemma fill_not_Absent [simp]: "fill n c t \<noteq> Absent"
  by (cases t) auto

lemma root_ref_fill_Some: "\<exists>x. root_ref (fill n c t) = Some x"
  by (cases t) auto

lemma filled_is_full:
  "repr h' (fill n c t) \<Longrightarrow> b \<in> set (refs (fill n c t)) \<Longrightarrow> is_decision (h' ! b)
     \<Longrightarrow> left_child (h' ! b) \<noteq> None \<and> right_child (h' ! b) \<noteq> None"
proof (induction t arbitrary: n c)
  case Absent
  then show ?case by (auto split: node.splits)
next
  case (TLeaf a v)
  then show ?case by (auto split: node.splits)
next
  case (TDec a l r)
  from TDec.prems(2) consider "b = a" | "b \<in> set (refs (fill n c l))"
    | "b \<in> set (refs (fill (n + gaps l) (c + int (gaps l)) r))" by auto
  then show ?case
  proof cases
    case 1
    with TDec.prems(1) root_ref_fill_Some [of n c l]
      root_ref_fill_Some [of "n + gaps l" "c + int (gaps l)" r]
    show ?thesis by (auto split: node.splits)
  next
    case 2
    from TDec.prems(1) have "repr h' (fill n c l)" by simp
    from TDec.IH(1) [OF this 2 TDec.prems(3)] show ?thesis .
  next
    case 3
    from TDec.prems(1) have "repr h' (fill (n + gaps l) (c + int (gaps l)) r)" by simp
    from TDec.IH(2) [OF this 3 TDec.prems(3)] show ?thesis .
  qed
qed

lemma filled_left:
  "repr h t \<Longrightarrow> b \<in> set (refs t) \<Longrightarrow> is_decision (h ! b) \<Longrightarrow> left_child (h ! b) = None
     \<Longrightarrow> repr h' (fill n c t)
     \<Longrightarrow> \<exists>m. n \<le> m \<and> m < n + gaps t \<and> left_child (h' ! b) = Some m \<and> \<not> is_decision (h' ! m)"
proof (induction t arbitrary: n c)
  case Absent
  then show ?case by simp
next
  case (TLeaf a v)
  then show ?case by (auto split: node.splits)
next
  case (TDec a l r)
  from TDec.prems(2) consider "b = a" | "b \<in> set (refs l)" | "b \<in> set (refs r)" by auto
  then show ?case
  proof cases
    case 1
    with TDec.prems(1,4) have "root_ref l = None" by (auto split: node.splits)
    then have l: "l = Absent" by (simp add: root_ref_None)
    from TDec.prems(5) have "left_child (h' ! b) = Some n \<and> \<not> is_decision (h' ! n)"
      unfolding l 1 by (auto split: node.splits)
    then show ?thesis using l by auto
  next
    case 2
    from TDec.prems have "repr h l" "repr h' (fill n c l)" by simp_all
    from TDec.IH(1) [OF this(1) 2 TDec.prems(3,4) this(2)]
    show ?thesis by auto
  next
    case 3
    from TDec.prems have "repr h r" "repr h' (fill (n + gaps l) (c + int (gaps l)) r)" by simp_all
    from TDec.IH(2) [OF this(1) 3 TDec.prems(3,4) this(2)]
    show ?thesis by auto
  qed
qed

lemma filled_right:
  "repr h t \<Longrightarrow> b \<in> set (refs t) \<Longrightarrow> is_decision (h ! b) \<Longrightarrow> right_child (h ! b) = None
     \<Longrightarrow> repr h' (fill n c t)
     \<Longrightarrow> \<exists>m. n \<le> m \<and> m < n + gaps t \<and> right_child (h' ! b) = Some m \<and> \<not> is_decision (h' ! m)"
proof (induction t arbitrary: n c)
  case Absent
  then show ?case by simp
next
  case (TLeaf a v)
  then show ?case by (auto split: node.splits)
next
  case (TDec a l r)
  from TDec.prems(2) consider "b = a" | "b \<in> set (refs l)" | "b \<in> set (refs r)" by auto
  then show ?case
  proof cases
    case 1
    with TDec.prems(1,4) have "root_ref r = None" by (auto split: node.splits)
    then have r: "r = Absent" by (simp add: root_ref_None)
    from TDec.prems(5) have "right_child (h' ! b) = Some (n + gaps l) \<and> \<not> is_decision (h' ! (n + gaps l))"
      unfolding r 1 by (auto split: node.splits)
    then show ?thesis using r by auto
  next
    case 2
    from TDec.prems have "repr h l" "repr h' (fill n c l)" by simp_all
    from TDec.IH(1) [OF this(1) 2 TDec.prems(3,4) this(2)]
    show ?thesis by auto
  next
    case 3
    from TDec.prems have "repr h r" "repr h' (fill (n + gaps l) (c + int (gaps l)) r)" by simp_all
    from TDec.IH(2) [OF this(1) 3 TDec.prems(3,4) this(2)]
    show ?thesis by auto
  qed
qed

lemma seeded_is_tree:
  assumes "is_tree h x t"
  shows "repr (seeded_heap h x) (seeded_tree h t)"
    and "distinct (refs (seeded_tree h t))"
    and "root_ref (seeded_tree h t) = Some (seeded_root h x)"
proof -
  have r: "root_ref t = x" and rp: "repr h t" and d: "distinct (refs t)"
    using assms by (simp_all add: is_tree_def)
  show "repr (seeded_heap h x) (seeded_tree h t)"
  proof (cases t)
    case Absent
    with r show ?thesis by (simp add: seeded_heap_def seeded_tree_def)
  next
    case (TLeaf a v)
    with r rp show ?thesis by (auto simp: seeded_heap_def seeded_tree_def)
  next
    case (TDec a l rt)
    with r rp show ?thesis by (auto simp: seeded_heap_def seeded_tree_def)
  qed
  show "distinct (refs (seeded_tree h t))"
    using d by (cases t) (simp_all add: seeded_tree_def)
  show "root_ref (seeded_tree h t) = Some (seeded_root h x)"
    using r by (cases t) (auto simp: seeded_tree_def seeded_root_def)
qed

lemma handle_splitting:
  assumes "is_tree h (root b) t"
  shows "\<exists>h'. handle (SplittingState c) b h out
               = Some (SplittingState (c + int (gaps (seeded_tree h t))),
                       b\<lparr>root := Some (seeded_root h (root b))\<rparr>, h',
                       out @ (if root b = None then [CriadaRaiz] else []) @ [HandlingSplitting])
             \<and> split_post (seeded_heap h (root b)) c (seeded_tree h t)
                  (set (refs (seeded_tree h t))) h'"
proof -
  from make_split_tree [OF seeded_is_tree [OF assms], of c]
  obtain h' where ms: "make_split (seeded_heap h (root b)) c (seeded_root h (root b))
                         = Some (h', c + int (gaps (seeded_tree h t)))"
    and sp: "split_post (seeded_heap h (root b)) c (seeded_tree h t)
                  (set (refs (seeded_tree h t))) h'"
    by blast
  have "handle (SplittingState c) b h out
               = Some (SplittingState (c + int (gaps (seeded_tree h t))),
                       b\<lparr>root := Some (seeded_root h (root b))\<rparr>, h',
                       out @ (if root b = None then [CriadaRaiz] else []) @ [HandlingSplitting])"
  proof (cases "root b")
    case None
    with ms show ?thesis
      by (simp add: handle_def alloc_def seeded_heap_def seeded_root_def)
  next
    case (Some a)
    then have "b\<lparr>root := Some a\<rparr> = b" by simp
    with Some ms show ?thesis
      by (simp add: handle_def seeded_heap_def seeded_root_def)
  qed
  with sp show ?thesis by blast
qed

lemma handle_state_indep:
  "handle s (b\<lparr>state := x\<rparr>) h out
     = map_option (\<lambda>(s', b', r). (s', b'\<lparr>state := x\<rparr>, r)) (handle s b h out)"
proof (cases s)
  case (SplittingState c)
  show ?thesis
  proof (cases "root b")
    case None
    show ?thesis
      unfolding SplittingState handle_def using None
      by (cases "make_split (h @ [DecisionNode None None None]) c (length h)")
         (auto simp: alloc_def)
  next
    case (Some a)
    show ?thesis
      unfolding SplittingState handle_def using Some
      by (cases "make_split h c a") auto
  qed
next
  case StoppingState
  then show ?thesis by (simp add: handle_def)
next
  case PruningState
  then show ?thesis by (simp add: handle_def)
qed

lemma run_step_splitting:
  assumes "handle (SplittingState c) b h (out @ [EstadoAtual ''SplittingState''])
             = Some (s', b', h', out')"
  shows "run_step (set_state b (Some (SplittingState c))) h out
           = Some (b'\<lparr>state := Some s'\<rparr>, h', out')"
  using assms
  by (simp add: run_step_def set_state_def handle_state_indep)

lemma run_step_stopping:
  "run_step (set_state b (Some StoppingState)) h out
     = Some (b\<lparr>state := Some StoppingState\<rparr>, h,
             out @ [EstadoAtual ''StoppingState'', HandlingStopping])"
  by (simp add: run_step_def set_state_def handle_def)

lemma run_step_pruning:
  "run_step (set_state b (Some PruningState)) h out
     = Some (b\<lparr>state := Some PruningState\<rparr>, h,
             out @ [EstadoAtual ''PruningState'', HandlingPruning])"
  by (simp add: run_step_def set_state_def handle_def)

lemma build_tree_splitting:
  assumes "handle (SplittingState 0) b h (out @ [EstadoAtual ''SplittingState''])
             = Some (s', b', h', out')"
  shows "build_tree b h out
           = Some (b'\<lparr>state := Some PruningState\<rparr>, h',
                   out' @ [EstadoAtual ''StoppingState'', HandlingStopping,
                           EstadoAtual ''PruningState'', HandlingPruning])"
  unfolding build_tree_def
  by (simp add: run_step_splitting [OF assms] run_step_stopping run_step_pruning)

section \<open>Traversal of a tree\<close>

lemma refs_present [simp]: "concat (map refs (present t)) = refs t"
  by (simp add: present_def)

lemma on_stack_Nil [simp]: "on_stack h stk [] \<longleftrightarrow> stk = []"
  by (simp add: on_stack_def)

lemma on_stack_snoc:
  "on_stack h stk (ts @ [t]) \<longleftrightarrow>
     (\<exists>stk' x. stk = stk' @ [x] \<and> on_stack h stk' ts \<and> root_ref t = Some x \<and> repr h t)"
proof
  assume "on_stack h stk (ts @ [t])"
  then obtain s1 s2 where "stk = s1 @ s2" "list_all2 (\<lambda>x t. root_ref t = Some x \<and> repr h t) s1 ts"
    "list_all2 (\<lambda>x t. root_ref t = Some x \<and> repr h t) s2 [t]"
    unfolding on_stack_def list_all2_append2 by blast
  then show "\<exists>stk' x. stk = stk' @ [x] \<and> on_stack h stk' ts \<and> root_ref t = Some x \<and> repr h t"
    by (auto simp: on_stack_def list_all2_Cons2)
next
  assume "\<exists>stk' x. stk = stk' @ [x] \<and> on_stack h stk' ts \<and> root_ref t = Some x \<and> repr h t"
  then show "on_stack h stk (ts @ [t])"
    by (auto simp: on_stack_def intro: list_all2_appendI)
qed

lemma on_stack_append:
  "on_stack h s1 t1 \<Longrightarrow> on_stack h s2 t2 \<Longrightarrow> on_stack h (s1 @ s2) (t1 @ t2)"
  by (simp add: on_stack_def list_all2_appendI)

lemma on_stack_present:
  "repr h t \<Longrightarrow> on_stack h (case root_ref t of Some x \<Rightarrow> [x] | None \<Rightarrow> []) (present t)"
  by (cases t) (auto simp: on_stack_def present_def)

lemma next_leaf:
  assumes "stack it = stk @ [x]" and "h ! x = LeafNode p v"
  shows "PreOrderIterator_next h it = (it\<lparr>stack := stk\<rparr>, Inr x)"
  using assms by (simp add: PreOrderIterator_next_def)

lemma next_decision:
  assumes "stack it = stk @ [x]" and "h ! x = DecisionNode p l r"
  shows "PreOrderIterator_next h it =
           (it\<lparr>stack := stk @ (case r of Some y \<Rightarrow> [y] | None \<Rightarrow> [])
                             @ (case l of Some y \<Rightarrow> [y] | None \<Rightarrow> [])\<rparr>, Inr x)"
  using assms by (simp add: PreOrderIterator_next_def split: option.splits)

lemma next_empty:
  assumes "stack it = []"
  shows "PreOrderIterator_next h it = (it, Inl StopIteration)"
  using assms by (simp add: PreOrderIterator_next_def)

lemma requests_exhausted:
  "stack it = [] \<Longrightarrow> requests k h it = replicate k (Inl StopIteration)"
  by (induction k) (simp_all add: next_empty)

lemma iterate_stack:
  assumes "on_stack h (stack it) ts"
  shows "for_in h body it s = Some (it\<lparr>stack := []\<rparr>, Inr (foldl body s (concat (map refs (rev ts)))))
       \<and> (\<forall>k. requests (length (concat (map refs (rev ts))) + k) h it
               = map Inr (concat (map refs (rev ts))) @ replicate k (Inl StopIteration))"
  using assms
proof (induction "length (concat (map refs ts))" arbitrary: ts it s rule: less_induct)
  case less
  show ?case
  proof (cases ts rule: rev_cases)
    case Nil
    with less.prems have e: "stack it = []" by simp
    then have "it\<lparr>stack := []\<rparr> = it" by simp
    then have "for_in h body it s = Some (it\<lparr>stack := []\<rparr>, Inr s)"
      by (subst for_in.simps) (simp add: next_empty [OF e])
    then show ?thesis using Nil requests_exhausted [OF e] by simp
  next
    case (snoc ts' t)
    with less.prems obtain stk x where st: "stack it = stk @ [x]"
      and os: "on_stack h stk ts'" and rt: "root_ref t = Some x" and rp: "repr h t"
      by (auto simp: on_stack_snoc)
    show ?thesis
    proof (cases t)
      case Absent
      with rt show ?thesis by simp
    next
      case (TLeaf a v)
      with rt rp obtain p where hx: "h ! x = LeafNode p v" and ax: "a = x"
        by (auto split: node.splits)
      let ?it = "it\<lparr>stack := stk\<rparr>"
      have nx: "PreOrderIterator_next h it = (?it, Inr x)" using next_leaf [OF st hx] .
      have "length (concat (map refs ts')) < length (concat (map refs ts))" using snoc TLeaf by simp
      moreover have "on_stack h (stack ?it) ts'" using os by simp
      ultimately have IH: "for_in h body ?it (body s x)
            = Some (?it\<lparr>stack := []\<rparr>, Inr (foldl body (body s x) (concat (map refs (rev ts')))))
         \<and> (\<forall>k. requests (length (concat (map refs (rev ts'))) + k) h ?it
               = map Inr (concat (map refs (rev ts'))) @ replicate k (Inl StopIteration))"
        using less.hyps by blast
      have "for_in h body it s = for_in h body ?it (body s x)"
        by (subst for_in.simps) (simp add: nx)
      then show ?thesis using IH snoc TLeaf ax nx by simp
    next
      case (TDec a l r)
      with rt rp obtain p where hx: "h ! x = DecisionNode p (root_ref l) (root_ref r)"
        and ax: "a = x" and rl: "repr h l" and rr: "repr h r"
        by (auto split: node.splits)
      let ?stk = "stk @ (case root_ref r of Some y \<Rightarrow> [y] | None \<Rightarrow> [])
                      @ (case root_ref l of Some y \<Rightarrow> [y] | None \<Rightarrow> [])"
      let ?ts = "ts' @ present r @ present l"
      let ?it = "it\<lparr>stack := ?stk\<rparr>"
      have nx: "PreOrderIterator_next h it = (?it, Inr x)" using next_decision [OF st hx] .
      have "length (concat (map refs ?ts)) < length (concat (map refs ts))"
        using snoc TDec by simp
      moreover have "on_stack h (stack ?it) ?ts"
        using os on_stack_present [OF rl] on_stack_present [OF rr]
        by (simp add: on_stack_append)
      ultimately have IH: "for_in h body ?it (body s x)
            = Some (?it\<lparr>stack := []\<rparr>, Inr (foldl body (body s x) (concat (map refs (rev ?ts)))))
         \<and> (\<forall>k. requests (length (concat (map refs (rev ?ts))) + k) h ?it
               = map Inr (concat (map refs (rev ?ts))) @ replicate k (Inl StopIteration))"
        using less.hyps by blast
      have cc: "concat (map refs (rev ?ts)) = refs l @ refs r @ concat (map refs (rev ts'))"
        by (simp add: present_def)
      have "for_in h body it s = for_in h body ?it (body s x)"
        by (subst for_in.simps) (simp add: nx)
      then show ?thesis using IH snoc TDec ax nx unfolding cc by (simp add: add.assoc)
    qed
  qed
qed

lemma reach_trans: "reach h b c \<Longrightarrow> reach h a b \<Longrightarrow> reach h a c"
  by (induction rule: reach.induct) (auto intro: reach.intros)

lemma refs_closed_left:
  "repr h t \<Longrightarrow> b \<in> set (refs t) \<Longrightarrow> h ! b = DecisionNode p (Some c) r \<Longrightarrow> c \<in> set (refs t)"
proof (induction t)
  case (TDec a tl tr)
  then show ?case by (auto dest: root_ref_in_refs [OF sym])
qed auto

lemma refs_closed_right:
  "repr h t \<Longrightarrow> b \<in> set (refs t) \<Longrightarrow> h ! b = DecisionNode p l (Some c) \<Longrightarrow> c \<in> set (refs t)"
proof (induction t)
  case (TDec a tl tr)
  then show ?case by (auto dest: root_ref_in_refs [OF sym])
qed auto

lemma reach_in_refs:
  assumes "reach h a b" and "repr h t" and "root_ref t = Some a"
  shows "b \<in> set (refs t)"
  using assms
  by (induction rule: reach.induct)
     (auto intro: root_ref_in_refs refs_closed_left refs_closed_right)

lemma refs_reach:
  "repr h t \<Longrightarrow> root_ref t = Some a \<Longrightarrow> b \<in> set (refs t) \<Longrightarrow> reach h a b"
proof (induction t arbitrary: a)
  case Absent
  then show ?case by simp
next
  case (TLeaf x v)
  then show ?case by (auto intro: reach_self)
next
  case (TDec x l r)
  then have ax: "x = a" by simp
  from TDec.prems obtain p where ha: "h ! a = DecisionNode p (root_ref l) (root_ref r)"
    and rl: "repr h l" and rr: "repr h r"
    unfolding ax by (auto split: node.splits)
  from TDec.prems(3) consider "b = a" | "b \<in> set (refs l)" | "b \<in> set (refs r)"
    unfolding ax by auto
  then show ?case
  proof cases
    case 1
    then show ?thesis by (simp add: reach_self)
  next
    case 2
    then obtain la where la: "root_ref l = Some la" by (cases l) auto
    have "reach h a la" using reach_left [OF reach_self, of h a] ha la by simp
    moreover have "reach h la b" using TDec.IH(1) [OF rl la 2] .
    ultimately show ?thesis using reach_trans by blast
  next
    case 3
    then obtain ra where ra: "root_ref r = Some ra" by (cases r) auto
    have "reach h a ra" using reach_right [OF reach_self, of h a] ha ra by simp
    moreover have "reach h ra b" using TDec.IH(2) [OF rr ra 3] .
    ultimately show ?thesis using reach_trans by blast
  qed
qed

lemma nodes_of_refs: "repr h t \<Longrightarrow> nodes_of h (root_ref t) = set (refs t)"
proof (cases "root_ref t")
  case None
  then show ?thesis by (simp add: nodes_of_def root_ref_None)
next
  case (Some a)
  assume "repr h t"
  then show ?thesis
    using Some reach_in_refs refs_reach by (auto simp: nodes_of_def)
qed

lemma on_stack_root:
  "repr h t \<Longrightarrow> on_stack h (stack (iterator_at (root_ref t))) (present t)"
  using on_stack_present by (simp add: iterator_at_def)

lemma iterate_tree:
  assumes "repr h t"
  shows "for_in h body (iterator_at (root_ref t)) s
           = Some (exhausted (root_ref t), Inr (foldl body s (refs t)))"
    and "requests (length (refs t) + k) h (iterator_at (root_ref t))
           = map Inr (refs t) @ replicate k (Inl StopIteration)"
proof -
  have e: "(iterator_at (root_ref t))\<lparr>stack := []\<rparr> = exhausted (root_ref t)"
    by (simp add: iterator_at_def exhausted_def)
  have c: "concat (map refs (rev (present t))) = refs t"
    by (simp add: present_def)
  from iterate_stack [OF on_stack_root [OF assms], of body s]
  show "for_in h body (iterator_at (root_ref t)) s
           = Some (exhausted (root_ref t), Inr (foldl body s (refs t)))"
    and "requests (length (refs t) + k) h (iterator_at (root_ref t))
           = map Inr (refs t) @ replicate k (Inl StopIteration)"
    unfolding e c by simp_all
qed

lemma traversal_tree:
  assumes "repr h t"
  shows "traversal h (iterator_at (root_ref t)) = Some (exhausted (root_ref t), Inr (refs t))"
proof -
  have f: "foldl (\<lambda>xs node. xs @ [node]) acc ys = acc @ ys" for acc ys :: "ref list"
    by (induction ys arbitrary: acc) simp_all
  show ?thesis
    unfolding traversal_def
    using iterate_tree(1) [OF assms, of "\<lambda>xs node. xs @ [node]" "[]"]
    by (simp add: f)
qed

lemma is_treeD:
  "is_tree h x t \<Longrightarrow> root_ref t = x" "is_tree h x t \<Longrightarrow> repr h t" "is_tree h x t \<Longrightarrow> distinct (refs t)"
  by (simp_all add: is_tree_def)

lemma leaf_count_foldl:
  "leaf_count (foldl (\<lambda>v n. accept h n v) v ys)
     = leaf_count v + int (length (filter (\<lambda>b. \<not> is_decision (h ! b)) ys))"
proof (induction ys arbitrary: v)
  case Nil
  show ?case by simp
next
  case (Cons y ys)
  show ?case
    unfolding foldl_Cons Cons.IH
    by (cases "h ! y") (simp_all add: accept_def visit_decision_node_def visit_leaf_node_def)
qed

lemma length_filter_mset:
  assumes "mset ys = mset xs"
  shows "length (filter P ys) = length (filter P xs)"
proof -
  have "mset (filter P ys) = filter_mset P (mset ys)" by (rule mset_filter)
  also have "\<dots> = filter_mset P (mset xs)" by (simp only: assms)
  also have "\<dots> = mset (filter P xs)" by (rule mset_filter [symmetric])
  finally show ?thesis by (rule mset_eq_length)
qed

lemma length_filter_distinct:
  assumes "distinct xs"
  shows "length (filter P xs) = card {b \<in> set xs. P b}"
proof -
  have "card {b \<in> set xs. P b} = card (set (filter P xs))" by simp
  also have "\<dots> = length (filter P xs)"
    by (rule distinct_card) (simp add: assms)
  finally show ?thesis by simp
qed

section \<open>After the splitting stage\<close>

lemma seeded_present:
  assumes "is_tree h x t" and "x \<noteq> None"
  shows "seeded_tree h t = t" and "seeded_heap h x = h"
  using assms by (cases t; auto simp: is_tree_def seeded_tree_def seeded_heap_def)+

lemma seeded_heap_old: "n < length h \<Longrightarrow> seeded_heap h x ! n = h ! n"
  by (cases x) (simp_all add: seeded_heap_def nth_append)

lemma seeded_heap_length: "length h \<le> length (seeded_heap h x)"
  by (cases x) (simp_all add: seeded_heap_def)

lemma seeded_tree_not_Absent [simp]: "seeded_tree h t \<noteq> Absent"
  by (cases t) (simp_all add: seeded_tree_def)

lemma split_post_completed:
  assumes T: "is_tree h x t"
    and sp: "split_post (seeded_heap h x) c (seeded_tree h t) (set (refs (seeded_tree h t))) h'"
  shows "completed h x (seeded_root h x) h'"
proof -
  let ?h0 = "seeded_heap h x" and ?t0 = "seeded_tree h t" and ?a = "seeded_root h x"
  have r: "root_ref t = x" and rp: "repr h t" using T by (simp_all add: is_tree_def)
  have rf: "repr h' (fill (length ?h0) c ?t0)" using sp by (simp add: split_post_def)
  have len: "length h' = length ?h0 + gaps ?t0" using sp by (simp add: split_post_def)
  have "root_ref (fill (length ?h0) c ?t0) = Some ?a"
    using seeded_is_tree(3) [OF T] by (simp add: root_ref_fill)
  then have nodes: "{b. reach h' ?a b} = set (refs (fill (length ?h0) c ?t0))"
    using nodes_of_refs [OF rf] by (simp add: nodes_of_def)
  have full: "left_child (h' ! n) \<noteq> None \<and> right_child (h' ! n) \<noteq> None"
    if "reach h' ?a n \<and> is_decision (h' ! n)" for n
  proof -
    from that nodes have "n \<in> set (refs (fill (length ?h0) c ?t0))" by blast
    from filled_is_full [OF rf this] that show ?thesis by simp
  qed
  have un: "untouched (h ! n) (h' ! n)" if "n < length h" for n
  proof -
    have "n < length ?h0" using that seeded_heap_length [of h x] by simp
    then have "untouched (?h0 ! n) (h' ! n)" using sp by (simp add: split_post_def)
    then show ?thesis using seeded_heap_old [OF that] by simp
  qed
  have slots: "(left_child (h ! n) = None \<longrightarrow>
               (\<exists>m. length h \<le> m \<and> m < length h' \<and> left_child (h' ! n) = Some m
                    \<and> \<not> is_decision (h' ! m)))
          \<and> (right_child (h ! n) = None \<longrightarrow>
               (\<exists>m. length h \<le> m \<and> m < length h' \<and> right_child (h' ! n) = Some m
                    \<and> \<not> is_decision (h' ! m)))"
    if n: "n \<in> nodes_of h x" and dn: "is_decision (h ! n)" for n
  proof -
    from n have x: "x \<noteq> None" by (cases x) (simp_all add: nodes_of_def)
    have e: "?t0 = t" "?h0 = h" using seeded_present [OF T x] .
    have nt: "n \<in> set (refs t)" using n nodes_of_refs [OF rp] r by simp
    have rf': "repr h' (fill (length h) c t)" using rf e by simp
    have len': "length h' = length h + gaps t" using len e by simp
    show ?thesis
      using filled_left [OF rp nt dn _ rf'] filled_right [OF rp nt dn _ rf'] len' by auto
  qed
  show ?thesis
    unfolding completed_def using full un slots by blast
qed

section \<open>Labels\<close>

lemma digit_value_nth: "d < 10 \<Longrightarrow> digit_value (''0123456789'' ! d) = d"
proof -
  assume "d < 10"
  then have "d = 0 \<or> d = 1 \<or> d = 2 \<or> d = 3 \<or> d = 4 \<or> d = 5 \<or> d = 6 \<or> d = 7 \<or> d = 8 \<or> d = 9"
    by arith
  then show ?thesis
    by (elim disjE) (simp_all add: digit_value_def)
qed

lemma decimal_value_snoc: "decimal_value (s @ [ch]) = 10 * decimal_value s + digit_value ch"
  by (simp add: decimal_value_def)

lemma decimal_value_digits: "decimal_value (digits n) = n"
proof (induction n rule: digits.induct)
  case (1 n)
  show ?case
  proof (cases "n < 10")
    case True
    then have "digits n = [''0123456789'' ! n]" by (subst digits.simps) simp
    then show ?thesis using digit_value_nth [OF True] by (simp add: decimal_value_def)
  next
    case False
    then have "digits n = digits (n div 10) @ [''0123456789'' ! (n mod 10)]"
      by (subst digits.simps) simp
    then show ?thesis
      using 1 [OF False] digit_value_nth [of "n mod 10"] by (simp add: decimal_value_snoc)
  qed
qed

lemma decimal_value_zeros: "decimal_value (replicate k CHR ''0'' @ s) = decimal_value s"
  by (induction k) (simp_all add: decimal_value_def digit_value_def)

lemma digits_nonempty: "digits n \<noteq> []"
  by (subst digits.simps) simp

lemma decimal_value_format: "0 \<le> i \<Longrightarrow> int (decimal_value (format_02d i)) = i"
  by (simp add: format_02d_def decimal_value_zeros decimal_value_digits)

lemma length_format: "2 \<le> length (format_02d i)"
proof -
  have "0 < length (digits n)" for n using digits_nonempty [of n] by simp
  then show ?thesis
    using digits_nonempty by (auto simp: format_02d_def Suc_le_eq)
qed

lemma seeded_absent:
  assumes "is_tree h None t"
  shows "seeded_tree h t = TDec (length h) Absent Absent"
    and "seeded_heap h None = h @ [DecisionNode None None None]"
  using assms by (simp_all add: is_tree_def root_ref_None seeded_tree_def seeded_heap_def)

lemma split_post_new_leaves:
  assumes sp: "split_post h0 c t0 S h'"
  shows "length h' = length h0 + gaps t0"
    and "i < gaps t0 \<Longrightarrow> \<not> is_decision (h' ! (length h0 + i))"
    and "i < gaps t0 \<Longrightarrow> val (h' ! (length h0 + i)) = format_02d (c + 1 + int i)"
    and "i < gaps t0 \<Longrightarrow> \<exists>d\<in>S. parent (h' ! (length h0 + i)) = Some d \<and> new_slot h0 h' d (length h0 + i)"
proof -
  show "length h' = length h0 + gaps t0" using sp by (simp add: split_post_def)
  assume i: "i < gaps t0"
  with sp obtain d where d: "d \<in> S"
    and l: "h' ! (length h0 + i) = LeafNode (Some d) (format_02d (c + 1 + int i))"
    and ns: "new_slot h0 h' d (length h0 + i)"
    unfolding split_post_def by blast
  show "\<not> is_decision (h' ! (length h0 + i))" using l by simp
  show "val (h' ! (length h0 + i)) = format_02d (c + 1 + int i)" using l by simp
  show "\<exists>d\<in>S. parent (h' ! (length h0 + i)) = Some d \<and> new_slot h0 h' d (length h0 + i)"
    using d l ns by auto
qed

lemma seeded_root_decision:
  assumes T: "is_tree h None t"
    and sp: "split_post (seeded_heap h None) c (seeded_tree h t) S h'"
  shows "is_decision (h' ! length h)"
proof -
  have "repr h' (fill (length (seeded_heap h None)) c (seeded_tree h t))"
    using sp by (simp add: split_post_def)
  then show ?thesis
    unfolding seeded_absent [OF T] by (auto split: node.splits)
qed

lemma new_leaf_labels_split:
  assumes T: "is_tree h x t"
    and sp: "split_post (seeded_heap h x) c (seeded_tree h t) S h'"
  shows "new_leaf_labels h h' = map (\<lambda>i. format_02d (c + 1 + int i)) [0..<gaps (seeded_tree h t)]"
proof -
  let ?h0 = "seeded_heap h x" and ?g = "gaps (seeded_tree h t)"
  let ?P = "\<lambda>n. \<not> is_decision (h' ! n)"
  note nl = split_post_new_leaves [OF sp]
  have P: "?P n" if "n \<in> set [length ?h0..<length ?h0 + ?g]" for n
  proof -
    from that have "n - length ?h0 < ?g" "n = length ?h0 + (n - length ?h0)" by auto
    with nl(2) [of "n - length ?h0"] show ?thesis by simp
  qed
  have f0: "filter ?P [length ?h0..<length ?h0 + ?g] = [length ?h0..<length ?h0 + ?g]"
    by (rule filter_True) (use P in blast)
  have f: "filter ?P [length h..<length h'] = [length ?h0..<length ?h0 + ?g]"
  proof (cases x)
    case None
    have "is_decision (h' ! length h)" using seeded_root_decision T sp None by blast
    moreover have "[length h..<length h'] = length h # [length ?h0..<length ?h0 + ?g]"
      using nl(1) None by (simp add: seeded_heap_def upt_conv_Cons)
    ultimately show ?thesis using f0 by simp
  next
    case (Some a)
    then have "?h0 = h" by (simp add: seeded_heap_def)
    then show ?thesis using f0 nl(1) by simp
  qed
  have "map (\<lambda>n. val (h' ! n)) [length ?h0..<length ?h0 + ?g]
          = map (\<lambda>i. format_02d (c + 1 + int i)) [0..<?g]"
    by (rule nth_equalityI) (simp_all add: nl(3))
  then show ?thesis by (simp add: new_leaf_labels_def f)
qed

lemma labels_from_one:
  fixes g :: nat
  defines "ls \<equiv> map (\<lambda>i. format_02d (0 + 1 + int i)) [0..<g]"
  shows "ls = map (\<lambda>i. format_02d (int i)) [1..<Suc (length ls)]"
    and "map decimal_value ls = [1..<Suc (length ls)]"
    and "distinct ls"
    and "\<forall>s\<in>set ls. 2 \<le> length s"
proof -
  have len: "length ls = g" by (simp add: ls_def)
  have up: "[1..<Suc g] = map Suc [0..<g]" by (simp add: map_Suc_upt)
  show 1: "ls = map (\<lambda>i. format_02d (int i)) [1..<Suc (length ls)]"
    unfolding len up by (simp add: ls_def add.commute)
  have "decimal_value (format_02d (int i)) = i" for i
    using decimal_value_format [of "int i"] by simp
  then have "map decimal_value (map (\<lambda>i. format_02d (int i)) [1..<Suc g]) = [1..<Suc g]"
    by (simp add: map_idI)
  then show 2: "map decimal_value ls = [1..<Suc (length ls)]"
    using 1 len by simp
  have "distinct (map decimal_value ls)" unfolding 2 by simp
  then show "distinct ls" by (simp add: distinct_map)
  show "\<forall>s\<in>set ls. 2 \<le> length s" by (auto simp: ls_def length_format)
qed

lemma labels_upto_two: "map (\<lambda>i. format_02d (int i)) [1..<Suc 2] = [''01'', ''02'']"
  by code_simp

section \<open>A fresh builder\<close>

lemma format_02d_1: "format_02d 1 = ''01''" by code_simp
lemma format_02d_2: "format_02d 2 = ''02''" by code_simp

lemma make_split_fresh:
  "make_split (h @ [DecisionNode None None None]) 0 (length h) = Some (fresh_store h, 2)"
  by (subst make_split.simps)
     (simp add: alloc_def Let_def nth_append format_02d_1 format_02d_2 fresh_store_def)

lemma build_tree_fresh:
  "build_tree TreeBuilder h out
     = Some (\<lparr>root = Some (length h), state = Some PruningState\<rparr>, fresh_store h,
             out @ [EstadoAtual ''SplittingState'', CriadaRaiz, HandlingSplitting,
                    EstadoAtual ''StoppingState'', HandlingStopping,
                    EstadoAtual ''PruningState'', HandlingPruning])"
proof -
  have "handle (SplittingState 0) TreeBuilder h (out @ [EstadoAtual ''SplittingState''])
          = Some (SplittingState 2, \<lparr>root = Some (length h), state = None\<rparr>, fresh_store h,
                  out @ [EstadoAtual ''SplittingState'', CriadaRaiz, HandlingSplitting])"
    by (simp add: handle_def TreeBuilder_def alloc_def make_split_fresh)
  from build_tree_splitting [OF this] show ?thesis by simp
qed

lemma fresh_store_nth:
  "fresh_store h ! length h = DecisionNode None (Some (length h + 1)) (Some (length h + 2))"
  "fresh_store h ! (length h + 1) = LeafNode (Some (length h)) ''01''"
  "fresh_store h ! (length h + 2) = LeafNode (Some (length h)) ''02''"
  "fresh_store h ! Suc (length h) = LeafNode (Some (length h)) ''01''"
  "fresh_store h ! Suc (Suc (length h)) = LeafNode (Some (length h)) ''02''"
  by (simp_all add: fresh_store_def nth_append)

lemma fresh_store_repr:
  "repr (fresh_store h)
     (TDec (length h) (TLeaf (length h + 1) ''01'') (TLeaf (length h + 2) ''02''))"
  by (simp add: fresh_store_nth) (simp add: fresh_store_def)

lemma fresh_store_reach:
  assumes "reach (fresh_store h) (length h) d"
  shows "d = length h \<or> d = length h + 1 \<or> d = length h + 2"
proof -
  from reach_in_refs [OF assms fresh_store_repr] show ?thesis by auto
qed

section \<open>The parent of a created leaf\<close>

lemma holds_children:
  assumes "h ! d = DecisionNode p x y" and "holds h d m"
  shows "x = Some m \<or> y = Some m"
  using assms by (auto simp: holds_def)

lemma holds_closed:
  assumes "repr h t" and "d \<in> set (refs t)" and "holds h d m"
  shows "m \<in> set (refs t)"
proof (cases "h ! d")
  case (DecisionNode p x y)
  from holds_children [OF this assms(3)] show ?thesis
    using refs_closed_left [OF assms(1,2)] refs_closed_right [OF assms(1,2)] DecisionNode
    by auto
next
  case (LeafNode p v)
  with assms(3) show ?thesis by (simp add: holds_def)
qed

lemma root_not_held:
  assumes "repr h t" and "distinct (refs t)" and "d \<in> set (refs t)" and "root_ref t = Some x"
  shows "\<not> holds h d x"
proof (cases t)
  case Absent
  with assms show ?thesis by simp
next
  case (TLeaf a v)
  with assms show ?thesis by (auto simp: holds_def split: node.splits)
next
  case (TDec a l r)
  with assms have xa: "x = a" by simp
  from assms(1) TDec obtain p where ha: "h ! a = DecisionNode p (root_ref l) (root_ref r)"
    and rl: "repr h l" and rr: "repr h r" by (auto split: node.splits)
  from assms(2) TDec have nl: "a \<notin> set (refs l)" and nr: "a \<notin> set (refs r)" by auto
  show ?thesis
  proof
    assume hd: "holds h d x"
    from assms(3) TDec consider "d = a" | "d \<in> set (refs l)" | "d \<in> set (refs r)" by auto
    then show False
    proof cases
      case 1
      with hd xa holds_children [OF ha] have "root_ref l = Some a \<or> root_ref r = Some a" by simp
      then show False using nl nr root_ref_in_refs by blast
    next
      case 2
      from holds_closed [OF rl 2 hd] nl xa show False by simp
    next
      case 3
      from holds_closed [OF rr 3 hd] nr xa show False by simp
    qed
  qed
qed

lemma root_holder_apart:
  assumes rp: "repr h (TDec a l r)" and ds: "distinct (refs (TDec a l r))"
    and ha: "holds h a m" and d': "d' \<in> set (refs l) \<union> set (refs r)" and hd: "holds h d' m"
  shows False
proof -
  from rp obtain p where hn: "h ! a = DecisionNode p (root_ref l) (root_ref r)"
    and rl: "repr h l" and rr: "repr h r" by (auto split: node.splits)
  from ds have dl: "distinct (refs l)" and dr: "distinct (refs r)"
    and disj: "set (refs l) \<inter> set (refs r) = {}" by auto
  from holds_children [OF hn ha] have m: "root_ref l = Some m \<or> root_ref r = Some m" .
  from d' show False
  proof
    assume 1: "d' \<in> set (refs l)"
    then have ml: "m \<in> set (refs l)" using holds_closed [OF rl _ hd] by simp
    from m show False
    proof
      assume "root_ref l = Some m"
      from root_not_held [OF rl dl 1 this] hd show False by simp
    next
      assume "root_ref r = Some m"
      then have "m \<in> set (refs r)" by (rule root_ref_in_refs)
      with ml disj show False by auto
    qed
  next
    assume 2: "d' \<in> set (refs r)"
    then have mr: "m \<in> set (refs r)" using holds_closed [OF rr _ hd] by simp
    from m show False
    proof
      assume "root_ref r = Some m"
      from root_not_held [OF rr dr 2 this] hd show False by simp
    next
      assume "root_ref l = Some m"
      then have "m \<in> set (refs l)" by (rule root_ref_in_refs)
      with mr disj show False by auto
    qed
  qed
qed

lemma unique_holder:
  assumes "repr h t" and "distinct (refs t)"
    and "d \<in> set (refs t)" and "d' \<in> set (refs t)"
    and "holds h d m" and "holds h d' m"
  shows "d = d'"
  using assms
proof (induction t)
  case Absent
  then show ?case by simp
next
  case (TLeaf a v)
  then show ?case by simp
next
  case (TDec a l r)
  from TDec.prems(1) have rl: "repr h l" and rr: "repr h r" by simp_all
  from TDec.prems(2) have dl: "distinct (refs l)" and dr: "distinct (refs r)"
    and disj: "set (refs l) \<inter> set (refs r) = {}" by auto
  from TDec.prems(3) consider "d = a" | "d \<in> set (refs l)" | "d \<in> set (refs r)" by auto
  then show ?case
  proof cases
    case 1
    show ?thesis
    proof (rule ccontr)
      assume "d \<noteq> d'"
      with 1 TDec.prems(4) have "d' \<in> set (refs l) \<union> set (refs r)" by auto
      from root_holder_apart [OF TDec.prems(1,2) _ this TDec.prems(6)] TDec.prems(5) 1
      show False by simp
    qed
  next
    case 2
    from TDec.prems(4) consider "d' = a" | "d' \<in> set (refs l)" | "d' \<in> set (refs r)" by auto
    then show ?thesis
    proof cases
      case 1
      have "d \<in> set (refs l) \<union> set (refs r)" using 2 by simp
      from root_holder_apart [OF TDec.prems(1,2) _ this TDec.prems(5)] TDec.prems(6) 1
      show ?thesis by simp
    next
      case 2
      from TDec.IH(1) [OF rl dl \<open>d \<in> set (refs l)\<close> 2 TDec.prems(5,6)] show ?thesis .
    next
      case 3
      from holds_closed [OF rl \<open>d \<in> set (refs l)\<close> TDec.prems(5)]
        holds_closed [OF rr 3 TDec.prems(6)] disj
      show ?thesis by auto
    qed
  next
    case 3
    from TDec.prems(4) consider "d' = a" | "d' \<in> set (refs l)" | "d' \<in> set (refs r)" by auto
    then show ?thesis
    proof cases
      case 1
      have "d \<in> set (refs l) \<union> set (refs r)" using 3 by simp
      from root_holder_apart [OF TDec.prems(1,2) _ this TDec.prems(5)] TDec.prems(6) 1
      show ?thesis by simp
    next
      case 2
      from holds_closed [OF rr \<open>d \<in> set (refs r)\<close> TDec.prems(5)]
        holds_closed [OF rl 2 TDec.prems(6)] disj
      show ?thesis by auto
    next
      case 3
      from TDec.IH(2) [OF rr dr \<open>d \<in> set (refs r)\<close> 3 TDec.prems(5,6)] show ?thesis .
    qed
  qed
qed

lemma distinct_refs_fill:
  assumes "distinct (refs t)" and "\<forall>x\<in>set (refs t). x < n"
  shows "distinct (refs (fill n c t))"
  using assms
proof (induction t arbitrary: n c)
  case Absent
  then show ?case by simp
next
  case (TLeaf a v)
  then show ?case by simp
next
  case (TDec a l r)
  have bl: "x < n" if "x \<in> set (refs l)" for x using TDec.prems(2) that by simp
  have br: "x < n" if "x \<in> set (refs r)" for x using TDec.prems(2) that by simp
  have an: "a < n" using TDec.prems(2) by simp
  have 1: "distinct (refs (fill n c l))" using TDec.IH(1) TDec.prems(1) bl by simp
  have "\<forall>x\<in>set (refs r). x < n + gaps l" using br by (auto intro: trans_less_add1)
  then have 2: "distinct (refs (fill (n + gaps l) (c + int (gaps l)) r))"
    using TDec.IH(2) TDec.prems(1) by simp
  have 3: "set (refs (fill n c l)) \<inter> set (refs (fill (n + gaps l) (c + int (gaps l)) r)) = {}"
  proof -
    have "x \<notin> set (refs (fill (n + gaps l) (c + int (gaps l)) r))"
      if x: "x \<in> set (refs (fill n c l))" for x
    proof -
      from x have "x \<in> set (refs l) \<or> (n \<le> x \<and> x < n + gaps l)"
        by (auto simp: set_refs_fill)
      then show ?thesis
      proof
        assume m: "x \<in> set (refs l)"
        then have "x \<notin> set (refs r)" using TDec.prems(1) by auto
        moreover have "x < n" using bl [OF m] .
        ultimately show ?thesis by (auto simp: set_refs_fill)
      next
        assume m: "n \<le> x \<and> x < n + gaps l"
        then have "x \<notin> set (refs r)" using br [of x] by auto
        then show ?thesis using m by (auto simp: set_refs_fill)
      qed
    qed
    then show ?thesis by blast
  qed
  have 4: "a \<notin> set (refs (fill n c l))" "a \<notin> set (refs (fill (n + gaps l) (c + int (gaps l)) r))"
    using TDec.prems(1) an by (auto simp: set_refs_fill)
  show ?case using 1 2 3 4 by simp
qed

lemma new_slot_holds:
  assumes "new_slot h0 h' d m" and "untouched (h0 ! d) (h' ! d)"
  shows "holds h' d m"
  using assms untouched_decision [OF assms(2)] by (auto simp: new_slot_def holds_def)

lemma slot_leaf_parent:
  assumes rp: "repr h0 t0" and ds: "distinct (refs t0)"
    and sp: "split_post h0 c t0 (set (refs t0)) h'"
    and d: "d \<in> set (refs t0)" and dec: "is_decision (h0 ! d)"
    and slot: "left_child (h' ! d) = Some m \<or> right_child (h' ! d) = Some m"
    and m: "length h0 \<le> m" "m < length h0 + gaps t0"
  shows "parent (h' ! m) = Some d"
proof -
  let ?T = "fill (length h0) c t0"
  have rf: "repr h' ?T" using sp by (simp add: split_post_def)
  have un: "untouched (h0 ! x) (h' ! x)" if "x \<in> set (refs t0)" for x
    using sp repr_bound [OF rp that] by (simp add: split_post_def)
  have bound: "\<forall>x\<in>set (refs t0). x < length h0" using repr_bound [OF rp] by blast
  have dT: "distinct (refs ?T)" using distinct_refs_fill [OF ds bound] .
  from m have i: "m - length h0 < gaps t0" "m = length h0 + (m - length h0)" by auto
  from split_post_new_leaves(4) [OF sp i(1)] i(2)
  obtain d' where d': "d' \<in> set (refs t0)" and p: "parent (h' ! m) = Some d'"
    and ns: "new_slot h0 h' d' m" by auto
  have h1: "holds h' d' m" using new_slot_holds [OF ns un [OF d']] .
  have "is_decision (h' ! d)" using untouched_decision [OF un [OF d]] dec by simp
  then have h2: "holds h' d m" using slot by (simp add: holds_def)
  have "d \<in> set (refs ?T)" "d' \<in> set (refs ?T)" using d d' by (simp_all add: set_refs_fill)
  from unique_holder [OF rf dT this h2 h1] p show ?thesis by simp
qed

lemma empty_slots_get_children:
  assumes rp: "repr h0 t0" and ds: "distinct (refs t0)"
    and sp: "split_post h0 c t0 (set (refs t0)) h'"
    and d: "d \<in> set (refs t0)" and dec: "is_decision (h0 ! d)"
  shows "(left_child (h0 ! d) = None \<longrightarrow>
           (\<exists>m. length h0 \<le> m \<and> m < length h' \<and> left_child (h' ! d) = Some m
                \<and> \<not> is_decision (h' ! m) \<and> parent (h' ! m) = Some d))
       \<and> (right_child (h0 ! d) = None \<longrightarrow>
           (\<exists>m. length h0 \<le> m \<and> m < length h' \<and> right_child (h' ! d) = Some m
                \<and> \<not> is_decision (h' ! m) \<and> parent (h' ! m) = Some d))"
proof -
  have rf: "repr h' (fill (length h0) c t0)" and len: "length h' = length h0 + gaps t0"
    using sp by (simp_all add: split_post_def)
  note par = slot_leaf_parent [OF rp ds sp d dec]
  have L: "\<exists>m. length h0 \<le> m \<and> m < length h' \<and> left_child (h' ! d) = Some m
                \<and> \<not> is_decision (h' ! m) \<and> parent (h' ! m) = Some d"
    if "left_child (h0 ! d) = None"
  proof -
    from filled_left [OF rp d dec that rf]
    obtain m where m: "length h0 \<le> m" "m < length h0 + gaps t0"
      "left_child (h' ! d) = Some m" "\<not> is_decision (h' ! m)" by blast
    from par [of m] m have "parent (h' ! m) = Some d" by simp
    with m len show ?thesis by auto
  qed
  have R: "\<exists>m. length h0 \<le> m \<and> m < length h' \<and> right_child (h' ! d) = Some m
                \<and> \<not> is_decision (h' ! m) \<and> parent (h' ! m) = Some d"
    if "right_child (h0 ! d) = None"
  proof -
    from filled_right [OF rp d dec that rf]
    obtain m where m: "length h0 \<le> m" "m < length h0 + gaps t0"
      "right_child (h' ! d) = Some m" "\<not> is_decision (h' ! m)" by blast
    from par [of m] m have "parent (h' ! m) = Some d" by simp
    with m len show ?thesis by auto
  qed
  show ?thesis using L R by blast
qed

section \<open>Attaching children: failures leave the store as it was\<close>

text \<open>
  C5. For a decision node \<open>self\<close>: \<open>add_child\<close> with both slots occupied raises
  \<open>Exception("Both child nodes are already set.")\<close>; \<open>add_left_child\<close> (\<open>add_right_child\<close>)
  with the left (right) slot occupied raises; and with an argument that is not a node all
  three operations raise. In each of these cases the store after the call is the store
  before it, so both child slots of the node are unchanged.
\<close>

theorem attach_failures_leave_store:
  assumes "self < length h" and "h ! self = DecisionNode p l r"
  shows "(l \<noteq> None \<and> r \<noteq> None \<longrightarrow>
            add_child h self child = (h, Inl (Exception ''Both child nodes are already set.'')))
       \<and> (l \<noteq> None \<longrightarrow> (\<exists>e. add_left_child h self child = (h, Inl e)))
       \<and> (r \<noteq> None \<longrightarrow> (\<exists>e. add_right_child h self child = (h, Inl e)))
       \<and> ((\<forall>c. child \<noteq> NodeRef c) \<longrightarrow>
            add_left_child h self child = (h, Inl (ValueError ''Child must be an instance of Node.''))
          \<and> add_right_child h self child = (h, Inl (ValueError ''Child must be an instance of Node.''))
          \<and> (\<exists>e. add_child h self child = (h, Inl e)))"
  using assms
  by (cases child) (auto simp: add_child_def add_left_child_def add_right_child_def)

theorem attach_failures_leave_store_witness:
  "add_child [DecisionNode None (Some 1) (Some 2), LeafNode (Some 0) ''a'', LeafNode (Some 0) ''b'']
     0 (PyInt 5)
   = ([DecisionNode None (Some 1) (Some 2), LeafNode (Some 0) ''a'', LeafNode (Some 0) ''b''],
      Inl (Exception ''Both child nodes are already set.''))
   \<and> (\<exists>e. add_left_child
            [DecisionNode None (Some 1) (Some 2), LeafNode (Some 0) ''a'', LeafNode (Some 0) ''b'']
            0 (PyInt 5)
          = ([DecisionNode None (Some 1) (Some 2), LeafNode (Some 0) ''a'', LeafNode (Some 0) ''b''],
             Inl e))"
  using attach_failures_leave_store
    [of 0 "[DecisionNode None (Some 1) (Some 2), LeafNode (Some 0) ''a'', LeafNode (Some 0) ''b'']"
        None "Some 1" "Some 2" "PyInt 5"]
  by simp

section \<open>Constructing the iterator\<close>

text \<open>
  C7. \<open>Iterator.__init__\<close> with \<open>None\<close> succeeds (after printing a notice) with an empty
  stack; the first \<open>__next__\<close> on it raises \<open>StopIteration\<close> and a full traversal yields no
  node. With an argument that is neither \<open>None\<close> nor a node it raises \<open>ValueError\<close>.
\<close>

theorem iterator_init_absent_or_invalid:
  "Iterator_init PyNone out = (out @ [AvisoRaizNone], Inr \<lparr>it_root = None, stack = []\<rparr>)
   \<and> PreOrderIterator_next h \<lparr>it_root = None, stack = []\<rparr>
       = (\<lparr>it_root = None, stack = []\<rparr>, Inl StopIteration)
   \<and> traversal h \<lparr>it_root = None, stack = []\<rparr> = Some (\<lparr>it_root = None, stack = []\<rparr>, Inr [])
   \<and> Iterator_init (PyInt i) out = (out, Inl (ValueError ''Root must be an instance of Node.''))
   \<and> Iterator_init (PyStr s) out = (out, Inl (ValueError ''Root must be an instance of Node.''))"
proof -
  have "traversal h \<lparr>it_root = None, stack = []\<rparr> = Some (\<lparr>it_root = None, stack = []\<rparr>, Inr [])"
    unfolding traversal_def
    by (subst for_in.simps) (simp add: PreOrderIterator_next_def)
  then show ?thesis
    by (simp add: Iterator_init_def PreOrderIterator_next_def)
qed

section \<open>Splitting makes the tree full\<close>

text \<open>
  C1. For a builder whose root is absent or the root of a tree: the splitting stage
  returns, and so does \<open>build_tree\<close>; in the store afterwards every decision node
  reachable from the root has both slots occupied, every slot of the old tree that was
  empty holds a new leaf, and every object that existed before keeps its parent and the
  same node in every slot that was occupied (a leaf keeps its value as well).
\<close>

theorem splitting_makes_tree_full:
  assumes "is_tree h (root b) t"
  shows "(\<exists>c' h' out'.
            handle (SplittingState c) b h out
              = Some (SplittingState c', b\<lparr>root := Some (seeded_root h (root b))\<rparr>, h', out')
            \<and> completed h (root b) (seeded_root h (root b)) h')
       \<and> (\<exists>b' h' out'.
            build_tree b h out = Some (b', h', out')
            \<and> root b' = Some (seeded_root h (root b))
            \<and> completed h (root b) (seeded_root h (root b)) h')"
proof
  from handle_splitting [OF assms, of c out]
  show "\<exists>c' h' out'.
            handle (SplittingState c) b h out
              = Some (SplittingState c', b\<lparr>root := Some (seeded_root h (root b))\<rparr>, h', out')
            \<and> completed h (root b) (seeded_root h (root b)) h'"
    using split_post_completed [OF assms] by blast
next
  from handle_splitting [OF assms, of 0 "out @ [EstadoAtual ''SplittingState'']"]
  obtain h' s' out' where
    H: "handle (SplittingState 0) b h (out @ [EstadoAtual ''SplittingState''])
          = Some (s', b\<lparr>root := Some (seeded_root h (root b))\<rparr>, h', out')"
    and sp: "split_post (seeded_heap h (root b)) 0 (seeded_tree h t)
                  (set (refs (seeded_tree h t))) h'"
    by blast
  have "root (b\<lparr>root := Some (seeded_root h (root b)), state := Some PruningState\<rparr>)
          = Some (seeded_root h (root b))" by simp
  then show "\<exists>b' h' out'.
            build_tree b h out = Some (b', h', out')
            \<and> root b' = Some (seeded_root h (root b))
            \<and> completed h (root b) (seeded_root h (root b)) h'"
    using build_tree_splitting [OF H] split_post_completed [OF assms sp] by blast
qed

theorem splitting_makes_tree_full_witness:
  "\<exists>c' h' out'.
     handle (SplittingState 0) \<lparr>root = Some 0, state = None\<rparr>
       [DecisionNode None (Some 1) (Some 2), DecisionNode (Some 0) None None, LeafNode (Some 0) ''X'']
       []
       = Some (SplittingState c', \<lparr>root = Some 0, state = None\<rparr>, h', out')
     \<and> completed
          [DecisionNode None (Some 1) (Some 2), DecisionNode (Some 0) None None, LeafNode (Some 0) ''X'']
          (Some 0) 0 h'"
proof -
  let ?h = "[DecisionNode None (Some 1) (Some 2), DecisionNode (Some 0) None None, LeafNode (Some 0) ''X'']"
  let ?b = "\<lparr>root = Some 0, state = None\<rparr>"
  have t: "is_tree ?h (root ?b) (TDec 0 (TDec 1 Absent Absent) (TLeaf 2 ''X''))"
    by (simp add: is_tree_def)
  from splitting_makes_tree_full [OF t, of 0 "[]"]
  show ?thesis by (simp add: seeded_root_def)
qed

section \<open>Pre-order\<close>

text \<open>
  C2. For a tree whose root \<open>a\<close> is a decision node with left subtree \<open>l\<close> and right
  subtree \<open>r\<close>: the iterator constructed for \<open>a\<close> yields \<open>a\<close> first, then exactly what the
  iterator yields for the left child, then exactly what it yields for the right child;
  these are the pre-order sequences \<open>refs l\<close> and \<open>refs r\<close> of the subtrees.
\<close>

theorem pre_order_root_left_right:
  assumes "repr h (TDec a l r)"
  shows "Iterator_init (NodeRef a) out = (out, Inr (iterator_at (Some a)))
       \<and> traversal h (iterator_at (root_ref l)) = Some (exhausted (root_ref l), Inr (refs l))
       \<and> traversal h (iterator_at (root_ref r)) = Some (exhausted (root_ref r), Inr (refs r))
       \<and> traversal h (iterator_at (Some a)) = Some (exhausted (Some a), Inr (a # refs l @ refs r))"
proof -
  from assms have "repr h l" "repr h r" by simp_all
  then show ?thesis
    using traversal_tree [OF assms] traversal_tree [of h l] traversal_tree [of h r]
    by (simp add: Iterator_init_def iterator_at_def)
qed

theorem pre_order_root_left_right_witness:
  "traversal [DecisionNode None (Some 1) (Some 2), DecisionNode (Some 0) (Some 3) None,
              LeafNode (Some 0) ''X'', LeafNode (Some 1) ''Y'']
     (iterator_at (Some 0)) = Some (exhausted (Some 0), Inr [0, 1, 3, 2])"
  using pre_order_root_left_right
    [of "[DecisionNode None (Some 1) (Some 2), DecisionNode (Some 0) (Some 3) None,
          LeafNode (Some 0) ''X'', LeafNode (Some 1) ''Y'']"
        0 "TDec 1 (TLeaf 3 ''Y'') Absent" "TLeaf 2 ''X''"]
  by simp

section \<open>Leaf labels\<close>

text \<open>
  C6. For a builder whose root is absent or the root of a tree, \<open>build_tree\<close> returns and
  creates one leaf for every empty slot of the tree (two for an absent root); the values
  of these leaves, in the order of creation, are the counter values 1, 2, ... up to the
  number of empty slots, formatted by \<open>f"{n:02d}"\<close>: each has at least two characters and
  reads back as its counter value, so the values are strictly increasing as numbers and
  pairwise distinct.
\<close>

theorem leaf_labels_sequential:
  assumes "is_tree h (root b) t"
  shows "\<exists>b' h' out'.
           build_tree b h out = Some (b', h', out')
           \<and> length (new_leaf_labels h h') = gaps (seeded_tree h t)
           \<and> new_leaf_labels h h'
               = map (\<lambda>i. format_02d (int i)) [1..<Suc (gaps (seeded_tree h t))]
           \<and> map decimal_value (new_leaf_labels h h') = [1..<Suc (gaps (seeded_tree h t))]
           \<and> sorted_wrt (<) (map decimal_value (new_leaf_labels h h'))
           \<and> distinct (new_leaf_labels h h')
           \<and> (\<forall>s\<in>set (new_leaf_labels h h'). 2 \<le> length s)"
proof -
  from handle_splitting [OF assms, of 0 "out @ [EstadoAtual ''SplittingState'']"]
  obtain h' s' out' where
    H: "handle (SplittingState 0) b h (out @ [EstadoAtual ''SplittingState''])
          = Some (s', b\<lparr>root := Some (seeded_root h (root b))\<rparr>, h', out')"
    and sp: "split_post (seeded_heap h (root b)) 0 (seeded_tree h t)
                  (set (refs (seeded_tree h t))) h'"
    by blast
  let ?ls = "new_leaf_labels h h'"
  let ?g = "gaps (seeded_tree h t)"
  have ls: "?ls = map (\<lambda>i. format_02d (0 + 1 + int i)) [0..<?g]"
    using new_leaf_labels_split [OF assms sp] .
  have len: "length ?ls = ?g" unfolding ls by simp
  have m: "map decimal_value ?ls = [1..<Suc (length ?ls)]"
    unfolding ls using labels_from_one(2) .
  have e: "?ls = map (\<lambda>i. format_02d (int i)) [1..<Suc (length ?ls)]"
    unfolding ls using labels_from_one(1) .
  have "sorted_wrt (<) (map decimal_value ?ls)"
    unfolding m by (rule sorted_wrt_upt)
  moreover have "?ls = map (\<lambda>i. format_02d (int i)) [1..<Suc ?g]"
    using e unfolding len .
  moreover have "map decimal_value ?ls = [1..<Suc ?g]"
    using m unfolding len .
  moreover have "distinct ?ls" unfolding ls using labels_from_one(3) .
  moreover have "\<forall>s\<in>set ?ls. 2 \<le> length s" unfolding ls using labels_from_one(4) .
  ultimately show ?thesis
    using build_tree_splitting [OF H] len by blast
qed

theorem leaf_labels_sequential_witness:
  "\<exists>b' h' out'.
     build_tree \<lparr>root = Some 0, state = None\<rparr>
       [DecisionNode None (Some 1) (Some 2), DecisionNode (Some 0) None None, LeafNode (Some 0) ''X'']
       [] = Some (b', h', out')
     \<and> new_leaf_labels
          [DecisionNode None (Some 1) (Some 2), DecisionNode (Some 0) None None, LeafNode (Some 0) ''X'']
          h' = [''01'', ''02'']"
proof -
  let ?h = "[DecisionNode None (Some 1) (Some 2), DecisionNode (Some 0) None None, LeafNode (Some 0) ''X'']"
  let ?b = "\<lparr>root = Some 0, state = None\<rparr>"
  let ?t = "TDec 0 (TDec 1 Absent Absent) (TLeaf 2 ''X'')"
  have t: "is_tree ?h (root ?b) ?t"
    by (simp add: is_tree_def)
  have g: "gaps (seeded_tree ?h ?t) = 2" by (simp add: seeded_tree_def)
  from leaf_labels_sequential [OF t, of "[]"]
  obtain b' h' out' where "build_tree ?b ?h [] = Some (b', h', out')"
    and "new_leaf_labels ?h h' = map (\<lambda>i. format_02d (int i)) [1..<Suc (gaps (seeded_tree ?h ?t))]"
    by blast
  then have "build_tree ?b ?h [] = Some (b', h', out') \<and> new_leaf_labels ?h h' = [''01'', ''02'']"
    unfolding g labels_upto_two by simp
  then show ?thesis by blast
qed

section \<open>The iteration ends\<close>



section \<open>The scenario of a fresh builder\<close>

text \<open>
  C9. From a fresh builder, in any store \<open>h\<close>: \<open>build_tree\<close> creates a decision node as
  root (the object number \<open>length h\<close>) and two leaves labelled \<open>"01"\<close> (left) and \<open>"02"\<close> (right);
  the iterator over the root yields the root, the left leaf, the right leaf; and the
  demonstration script ends with a leaf count of 2.
\<close>

theorem fresh_builder_scenario:
  "build_tree TreeBuilder h out
     = Some (\<lparr>root = Some (length h), state = Some PruningState\<rparr>,
             h @ [DecisionNode None (Some (length h + 1)) (Some (length h + 2)),
                  LeafNode (Some (length h)) ''01'', LeafNode (Some (length h)) ''02''],
             out @ [EstadoAtual ''SplittingState'', CriadaRaiz, HandlingSplitting,
                    EstadoAtual ''StoppingState'', HandlingStopping,
                    EstadoAtual ''PruningState'', HandlingPruning])
   \<and> traversal (fresh_store h) (iterator_at (Some (length h)))
       = Some (exhausted (Some (length h)), Inr [length h, length h + 1, length h + 2])
   \<and> for_in (fresh_store h) (\<lambda>v node. accept (fresh_store h) node v)
         (iterator_at (Some (length h))) CountLeavesVisitor
       = Some (exhausted (Some (length h)),
               Inr \<lparr>leaf_count = 2,
                     printed = [VisitandoNoDecisaoContagem, FolhaEncontrada 1, FolhaEncontrada 2]\<rparr>)
   \<and> demo h
       = Some (\<lparr>root = Some (length h), state = Some PruningState\<rparr>, fresh_store h,
               Inr (\<lparr>current_depth = 0,
                      depth_printed = [VisitandoNoDecisao, FolhaAtingida, FolhaAtingida]\<rparr>,
                    \<lparr>leaf_count = 2,
                      printed = [VisitandoNoDecisaoContagem, FolhaEncontrada 1, FolhaEncontrada 2]\<rparr>))"
proof -
  let ?t = "TDec (length h) (TLeaf (length h + 1) ''01'') (TLeaf (length h + 2) ''02'')"
  let ?acc = "\<lambda>v node. accept (fresh_store h) node v"
  let ?both = "\<lambda>(dv, lv) node. (accept_depth (fresh_store h) node dv, accept (fresh_store h) node lv)"
  let ?lv = "\<lparr>leaf_count = 2,
              printed = [VisitandoNoDecisaoContagem, FolhaEncontrada 1, FolhaEncontrada 2]\<rparr>"
  let ?dv = "\<lparr>current_depth = 0,
              depth_printed = [VisitandoNoDecisao, FolhaAtingida, FolhaAtingida]\<rparr>"
  have tr: "traversal (fresh_store h) (iterator_at (Some (length h)))
       = Some (exhausted (Some (length h)), Inr [length h, length h + 1, length h + 2])"
    using traversal_tree [OF fresh_store_repr, of h] by simp
  have "for_in (fresh_store h) ?acc (iterator_at (Some (length h))) CountLeavesVisitor
          = Some (exhausted (Some (length h)),
                  Inr (foldl ?acc CountLeavesVisitor [length h, length h + 1, length h + 2]))"
    using iterate_tree(1) [OF fresh_store_repr, of h ?acc CountLeavesVisitor] by simp
  moreover have "foldl ?acc CountLeavesVisitor [length h, length h + 1, length h + 2] = ?lv"
    by (simp add: accept_def fresh_store_nth visit_decision_node_def visit_leaf_node_def
          CountLeavesVisitor_def)
  ultimately have cnt: "for_in (fresh_store h) ?acc (iterator_at (Some (length h))) CountLeavesVisitor
          = Some (exhausted (Some (length h)), Inr ?lv)"
    by simp
  have "for_in (fresh_store h) ?both (iterator_at (Some (length h))) (DepthVisitor, CountLeavesVisitor)
          = Some (exhausted (Some (length h)),
                  Inr (foldl ?both (DepthVisitor, CountLeavesVisitor)
                         [length h, length h + 1, length h + 2]))"
    using iterate_tree(1) [OF fresh_store_repr, of h ?both "(DepthVisitor, CountLeavesVisitor)"]
    by simp
  moreover have "foldl ?both (DepthVisitor, CountLeavesVisitor) [length h, length h + 1, length h + 2]
          = (?dv, ?lv)"
    by (simp add: accept_def accept_depth_def fresh_store_nth visit_decision_node_def
          visit_leaf_node_def depth_visit_decision_node_def depth_visit_leaf_node_def
          CountLeavesVisitor_def DepthVisitor_def)
  ultimately have "for_in (fresh_store h) ?both (iterator_at (Some (length h)))
                     (DepthVisitor, CountLeavesVisitor)
          = Some (exhausted (Some (length h)), Inr (?dv, ?lv))"
    by simp
  then have "demo h
       = Some (\<lparr>root = Some (length h), state = Some PruningState\<rparr>, fresh_store h,
               Inr (?dv, ?lv))"
    by (simp add: demo_def build_tree_fresh Iterator_init_def iterator_at_def)
  then show ?thesis
    using tr cnt build_tree_fresh [of h out] by (simp add: fresh_store_def)
qed

section \<open>Counting leaves\<close>

text \<open>
  C4. For a tree with \<open>L\<close> leaf nodes: the loop of the demonstration script, in which
  every node yielded accepts a fresh \<open>CountLeavesVisitor\<close>, ends with \<open>leaf_count = L\<close>;
  and so does accepting the visitor on the yielded nodes in any other order \<open>ys\<close>.
\<close>

theorem count_leaves_counts_leaves:
  assumes "is_tree h x t"
  shows "\<exists>xs v. traversal h (iterator_at x) = Some (exhausted x, Inr xs)
          \<and> for_in h (\<lambda>v node. accept h node v) (iterator_at x) CountLeavesVisitor
              = Some (exhausted x, Inr v)
          \<and> leaf_count v = int (card {b \<in> nodes_of h x. \<not> is_decision (h ! b)})
          \<and> (\<forall>ys. mset ys = mset xs \<longrightarrow>
                leaf_count (foldl (\<lambda>v node. accept h node v) CountLeavesVisitor ys)
                  = int (card {b \<in> nodes_of h x. \<not> is_decision (h ! b)}))"
proof -
  let ?P = "\<lambda>b. \<not> is_decision (h ! b)"
  let ?acc = "\<lambda>v node. accept h node v"
  have r: "root_ref t = x" and rp: "repr h t" and d: "distinct (refs t)"
    using assms by (simp_all add: is_tree_def)
  have n: "nodes_of h x = set (refs t)" using nodes_of_refs [OF rp] r by simp
  have L: "length (filter ?P (refs t)) = card {b \<in> nodes_of h x. ?P b}"
    using length_filter_distinct [OF d] n by simp
  have c0: "leaf_count CountLeavesVisitor = 0" by (simp add: CountLeavesVisitor_def)
  have any: "leaf_count (foldl ?acc CountLeavesVisitor ys) = int (card {b \<in> nodes_of h x. ?P b})"
    if "mset ys = mset (refs t)" for ys
    using length_filter_mset [OF that, of ?P] L by (simp add: leaf_count_foldl c0)
  have "traversal h (iterator_at x) = Some (exhausted x, Inr (refs t))"
    using traversal_tree [OF rp] r by simp
  moreover have "for_in h ?acc (iterator_at x) CountLeavesVisitor
              = Some (exhausted x, Inr (foldl ?acc CountLeavesVisitor (refs t)))"
    using iterate_tree(1) [OF rp, of ?acc CountLeavesVisitor] r by simp
  moreover have "leaf_count (foldl ?acc CountLeavesVisitor (refs t)) = int (card {b \<in> nodes_of h x. ?P b})"
    using any by simp
  ultimately show ?thesis using any by blast
qed

theorem count_leaves_counts_leaves_witness:
  "leaf_count (foldl (\<lambda>v node. accept [DecisionNode None (Some 1) (Some 2), DecisionNode (Some 0) (Some 3) None,
          LeafNode (Some 0) ''X'', LeafNode (Some 1) ''Y''] node v) CountLeavesVisitor [2, 3, 1, 0]) = 2
   \<and> int (card {b \<in> nodes_of [DecisionNode None (Some 1) (Some 2), DecisionNode (Some 0) (Some 3) None,
          LeafNode (Some 0) ''X'', LeafNode (Some 1) ''Y''] (Some 0).
             \<not> is_decision ([DecisionNode None (Some 1) (Some 2), DecisionNode (Some 0) (Some 3) None,
          LeafNode (Some 0) ''X'', LeafNode (Some 1) ''Y''] ! b)}) = 2"
proof -
  let ?h = "[DecisionNode None (Some 1) (Some 2), DecisionNode (Some 0) (Some 3) None,
          LeafNode (Some 0) ''X'', LeafNode (Some 1) ''Y'']"
  let ?t = "TDec 0 (TDec 1 (TLeaf 3 ''Y'') Absent) (TLeaf 2 ''X'')"
  have t: "is_tree ?h (Some 0) ?t" by (simp add: is_tree_def)
  have tr: "traversal ?h (iterator_at (Some 0)) = Some (exhausted (Some 0), Inr [0, 1, 3, 2])"
    using traversal_tree [of ?h ?t] by simp
  from count_leaves_counts_leaves [OF t] tr
  have "\<forall>ys. mset ys = mset [0, 1, 3, 2::nat] \<longrightarrow>
                leaf_count (foldl (\<lambda>v node. accept ?h node v) CountLeavesVisitor ys)
                  = int (card {b \<in> nodes_of ?h (Some 0). \<not> is_decision (?h ! b)})"
    by auto
  from this [rule_format, of "[2, 3, 1, 0]"]
  have "leaf_count (foldl (\<lambda>v node. accept ?h node v) CountLeavesVisitor [2, 3, 1, 0])
          = int (card {b \<in> nodes_of ?h (Some 0). \<not> is_decision (?h ! b)})"
    by simp
  moreover have "leaf_count (foldl (\<lambda>v node. accept ?h node v) CountLeavesVisitor [2, 3, 1, 0]) = 2"
    by (simp add: accept_def visit_decision_node_def visit_leaf_node_def CountLeavesVisitor_def)
  ultimately show ?thesis by simp
qed

section \<open>The build pass\<close>

text \<open>
  C3, as the code has it. For a builder whose root is absent or the root of a tree,
  \<open>build_tree\<close> returns; \<open>run_step\<close> has printed the names of the three states once each, in
  the order Splitting, Stopping, Pruning, each followed by the line of that state's
  \<open>handle\<close>; and the builder's state afterwards is the pruning state, the last one set.
\<close>

theorem build_tree_runs_three_stages:
  assumes "is_tree h (root b) t"
  shows "\<exists>b' h'.
           build_tree b h out
             = Some (b', h',
                     out @ [EstadoAtual ''SplittingState'']
                         @ (if root b = None then [CriadaRaiz] else [])
                         @ [HandlingSplitting,
                            EstadoAtual ''StoppingState'', HandlingStopping,
                            EstadoAtual ''PruningState'', HandlingPruning])
           \<and> state b' = Some PruningState"
proof -
  from handle_splitting [OF assms, of 0 "out @ [EstadoAtual ''SplittingState'']"]
  obtain h' where
    H: "handle (SplittingState 0) b h (out @ [EstadoAtual ''SplittingState''])
          = Some (SplittingState (0 + int (gaps (seeded_tree h t))),
                  b\<lparr>root := Some (seeded_root h (root b))\<rparr>, h',
                  (out @ [EstadoAtual ''SplittingState''])
                    @ (if root b = None then [CriadaRaiz] else []) @ [HandlingSplitting])"
    by blast
  from build_tree_splitting [OF H] show ?thesis by simp
qed

theorem build_tree_runs_three_stages_witness:
  "\<exists>b' h'.
     build_tree \<lparr>root = Some 0, state = None\<rparr>
       [DecisionNode None (Some 1) (Some 2), DecisionNode (Some 0) None None, LeafNode (Some 0) ''X'']
       []
       = Some (b', h',
               [EstadoAtual ''SplittingState'', HandlingSplitting,
                EstadoAtual ''StoppingState'', HandlingStopping,
                EstadoAtual ''PruningState'', HandlingPruning])
     \<and> state b' = Some PruningState"
proof -
  let ?h = "[DecisionNode None (Some 1) (Some 2), DecisionNode (Some 0) None None, LeafNode (Some 0) ''X'']"
  let ?b = "\<lparr>root = Some 0, state = None\<rparr>"
  have t: "is_tree ?h (root ?b) (TDec 0 (TDec 1 Absent Absent) (TLeaf 2 ''X''))"
    by (simp add: is_tree_def)
  from build_tree_runs_three_stages [OF t, of "[]"]
  show ?thesis by simp
qed

text \<open>
  The claim as stated fails: after \<open>build_tree\<close> on a fresh builder the state is not
  absent, it is the pruning state.
\<close>

theorem build_tree_state_counterexample:
  "map_option (state \<circ> fst) (build_tree TreeBuilder [] []) = Some (Some PruningState)
   \<and> Some PruningState \<noteq> (None :: state option)"
  by (simp add: build_tree_fresh)

section \<open>Parent references\<close>

text \<open>
  C10. For a builder whose root is absent or the root of a tree, the splitting stage
  returns and, after seeding the root if it was absent, creates exactly one object per
  empty slot of the tree. Every object so created is a leaf whose parent is a decision
  node that had an empty slot and holds this leaf in it afterwards; conversely every
  empty slot of a decision node of the tree holds afterwards a created leaf whose parent
  is that decision node; and every object that existed before has the parent it had.
  After \<open>build_tree\<close> on a fresh builder the root holds two leaves, and every node held in
  a slot of a decision node reachable from the root has that decision node as parent.
\<close>

theorem created_leaves_have_parent:
  assumes "is_tree h (root b) t"
  shows "(\<exists>c' b' h' out'.
            handle (SplittingState c) b h out = Some (SplittingState c', b', h', out')
            \<and> length h' = length (seeded_heap h (root b)) + gaps (seeded_tree h t)
            \<and> (\<forall>m. length (seeded_heap h (root b)) \<le> m \<and> m < length h' \<longrightarrow>
                  \<not> is_decision (h' ! m)
                  \<and> (\<exists>d<length (seeded_heap h (root b)).
                        parent (h' ! m) = Some d \<and> new_slot (seeded_heap h (root b)) h' d m))
            \<and> (\<forall>d\<in>nodes_of (seeded_heap h (root b)) (Some (seeded_root h (root b))).
                  is_decision (seeded_heap h (root b) ! d) \<longrightarrow>
                    (left_child (seeded_heap h (root b) ! d) = None \<longrightarrow>
                       (\<exists>m. length (seeded_heap h (root b)) \<le> m \<and> m < length h'
                            \<and> left_child (h' ! d) = Some m
                            \<and> \<not> is_decision (h' ! m) \<and> parent (h' ! m) = Some d))
                  \<and> (right_child (seeded_heap h (root b) ! d) = None \<longrightarrow>
                       (\<exists>m. length (seeded_heap h (root b)) \<le> m \<and> m < length h'
                            \<and> right_child (h' ! d) = Some m
                            \<and> \<not> is_decision (h' ! m) \<and> parent (h' ! m) = Some d)))
            \<and> (\<forall>n<length h. parent (h' ! n) = parent (h ! n)))
       \<and> (\<exists>b' out'.
            build_tree TreeBuilder h out = Some (b', fresh_store h, out')
            \<and> root b' = Some (length h)
            \<and> left_child (fresh_store h ! length h) = Some (length h + 1)
            \<and> right_child (fresh_store h ! length h) = Some (length h + 2)
            \<and> (\<forall>d n. reach (fresh_store h) (length h) d \<and> holds (fresh_store h) d n
                     \<longrightarrow> parent (fresh_store h ! n) = Some d))"
proof
  let ?h0 = "seeded_heap h (root b)" and ?t0 = "seeded_tree h t"
  let ?a0 = "seeded_root h (root b)"
  from handle_splitting [OF assms, of c out]
  obtain h' c' b' out' where
    H: "handle (SplittingState c) b h out = Some (SplittingState c', b', h', out')"
    and sp: "split_post ?h0 c ?t0 (set (refs ?t0)) h'"
    by blast
  note nl = split_post_new_leaves [OF sp]
  note st = seeded_is_tree [OF assms]
  have nodes: "nodes_of ?h0 (Some ?a0) = set (refs ?t0)"
    using nodes_of_refs [OF st(1)] st(3) by simp
  have new: "\<not> is_decision (h' ! m)
             \<and> (\<exists>d<length ?h0. parent (h' ! m) = Some d \<and> new_slot ?h0 h' d m)"
    if m: "length ?h0 \<le> m \<and> m < length h'" for m
  proof -
    from m nl(1) have i: "m - length ?h0 < gaps ?t0" "m = length ?h0 + (m - length ?h0)" by auto
    from nl(4) [OF i(1)] i(2) obtain d where "d \<in> set (refs ?t0)"
      and "parent (h' ! m) = Some d" and "new_slot ?h0 h' d m" by auto
    moreover from this(1) have "d < length ?h0" using repr_bound [OF st(1)] by simp
    moreover have "\<not> is_decision (h' ! m)" using nl(2) [OF i(1)] i(2) by simp
    ultimately show ?thesis by blast
  qed
  have slots: "(left_child (?h0 ! d) = None \<longrightarrow>
                       (\<exists>m. length ?h0 \<le> m \<and> m < length h' \<and> left_child (h' ! d) = Some m
                            \<and> \<not> is_decision (h' ! m) \<and> parent (h' ! m) = Some d))
                  \<and> (right_child (?h0 ! d) = None \<longrightarrow>
                       (\<exists>m. length ?h0 \<le> m \<and> m < length h' \<and> right_child (h' ! d) = Some m
                            \<and> \<not> is_decision (h' ! m) \<and> parent (h' ! m) = Some d))"
    if "d \<in> nodes_of ?h0 (Some ?a0)" and "is_decision (?h0 ! d)" for d
    using empty_slots_get_children [OF st(1,2) sp _ that(2)] that(1) nodes by simp
  have old: "parent (h' ! n) = parent (h ! n)" if n: "n < length h" for n
  proof -
    have "n < length ?h0" using n seeded_heap_length [of h "root b"] by simp
    then have "untouched (?h0 ! n) (h' ! n)" using sp by (simp add: split_post_def)
    then show ?thesis using untouched_parent seeded_heap_old [OF n] by metis
  qed
  show "\<exists>c' b' h' out'.
            handle (SplittingState c) b h out = Some (SplittingState c', b', h', out')
            \<and> length h' = length ?h0 + gaps ?t0
            \<and> (\<forall>m. length ?h0 \<le> m \<and> m < length h' \<longrightarrow>
                  \<not> is_decision (h' ! m)
                  \<and> (\<exists>d<length ?h0. parent (h' ! m) = Some d \<and> new_slot ?h0 h' d m))
            \<and> (\<forall>d\<in>nodes_of ?h0 (Some ?a0).
                  is_decision (?h0 ! d) \<longrightarrow>
                    (left_child (?h0 ! d) = None \<longrightarrow>
                       (\<exists>m. length ?h0 \<le> m \<and> m < length h' \<and> left_child (h' ! d) = Some m
                            \<and> \<not> is_decision (h' ! m) \<and> parent (h' ! m) = Some d))
                  \<and> (right_child (?h0 ! d) = None \<longrightarrow>
                       (\<exists>m. length ?h0 \<le> m \<and> m < length h' \<and> right_child (h' ! d) = Some m
                            \<and> \<not> is_decision (h' ! m) \<and> parent (h' ! m) = Some d)))
            \<and> (\<forall>n<length h. parent (h' ! n) = parent (h ! n))"
    using H nl(1) new slots old by blast
next
  have "parent (fresh_store h ! n) = Some d"
    if "reach (fresh_store h) (length h) d \<and> holds (fresh_store h) d n" for d n
  proof -
    from that fresh_store_reach [of h d]
    have "d = length h \<or> d = length h + 1 \<or> d = length h + 2" by blast
    with that have d: "d = length h" by (auto simp: fresh_store_nth holds_def)
    with that have "n = length h + 1 \<or> n = length h + 2"
      by (auto simp: fresh_store_nth holds_def)
    then show ?thesis using d by (auto simp: fresh_store_nth)
  qed
  then show "\<exists>b' out'.
            build_tree TreeBuilder h out = Some (b', fresh_store h, out')
            \<and> root b' = Some (length h)
            \<and> left_child (fresh_store h ! length h) = Some (length h + 1)
            \<and> right_child (fresh_store h ! length h) = Some (length h + 2)
            \<and> (\<forall>d n. reach (fresh_store h) (length h) d \<and> holds (fresh_store h) d n
                     \<longrightarrow> parent (fresh_store h ! n) = Some d)"
    unfolding build_tree_fresh by (simp add: fresh_store_nth)
qed

theorem created_leaves_have_parent_witness:
  "\<exists>c' b' h' out'.
     handle (SplittingState 0) \<lparr>root = Some 0, state = None\<rparr>
       [DecisionNode None (Some 1) (Some 2), DecisionNode (Some 0) None None, LeafNode (Some 0) ''X'']
       [] = Some (SplittingState c', b', h', out')
     \<and> length h' = 5
     \<and> \<not> is_decision (h' ! 3) \<and> \<not> is_decision (h' ! 4)
     \<and> map (\<lambda>n. parent (h' ! n)) [0, 1, 2, 3, 4] = [None, Some 0, Some 0, Some 1, Some 1]
     \<and> (\<exists>m. 3 \<le> m \<and> m < 5 \<and> left_child (h' ! 1) = Some m)
     \<and> (\<exists>m. 3 \<le> m \<and> m < 5 \<and> right_child (h' ! 1) = Some m)"
proof -
  let ?h = "[DecisionNode None (Some 1) (Some 2), DecisionNode (Some 0) None None, LeafNode (Some 0) ''X'']"
  let ?b = "\<lparr>root = Some 0, state = None\<rparr>"
  let ?t = "TDec 0 (TDec 1 Absent Absent) (TLeaf 2 ''X'')"
  have t: "is_tree ?h (root ?b) ?t" by (simp add: is_tree_def)
  have sh: "seeded_heap ?h (root ?b) = ?h" by (simp add: seeded_heap_def)
  have sr: "seeded_root ?h (root ?b) = 0" by (simp add: seeded_root_def)
  have g: "gaps (seeded_tree ?h ?t) = 2" by (simp add: seeded_tree_def)
  have n1: "(1::nat) \<in> nodes_of ?h (Some 0)"
    using nodes_of_refs [of ?h ?t] by simp
  from created_leaves_have_parent [OF t, of 0 "[]", THEN conjunct1, unfolded sh sr g]
  obtain c' b' h' out' where
    H: "handle (SplittingState 0) ?b ?h [] = Some (SplittingState c', b', h', out')"
    and len: "length h' = length ?h + 2"
    and new: "\<forall>m. length ?h \<le> m \<and> m < length h' \<longrightarrow>
                  \<not> is_decision (h' ! m)
                  \<and> (\<exists>d<length ?h. parent (h' ! m) = Some d \<and> new_slot ?h h' d m)"
    and slots: "\<forall>d\<in>nodes_of ?h (Some 0).
                  is_decision (?h ! d) \<longrightarrow>
                    (left_child (?h ! d) = None \<longrightarrow>
                       (\<exists>m. length ?h \<le> m \<and> m < length h' \<and> left_child (h' ! d) = Some m
                            \<and> \<not> is_decision (h' ! m) \<and> parent (h' ! m) = Some d))
                  \<and> (right_child (?h ! d) = None \<longrightarrow>
                       (\<exists>m. length ?h \<le> m \<and> m < length h' \<and> right_child (h' ! d) = Some m
                            \<and> \<not> is_decision (h' ! m) \<and> parent (h' ! m) = Some d))"
    and old: "\<forall>n<length ?h. parent (h' ! n) = parent (?h ! n)"
    by blast
  have len5: "length h' = 5" using len by simp
  have created: "\<not> is_decision (h' ! m) \<and> parent (h' ! m) = Some 1" if "m = 3 \<or> m = 4" for m
  proof -
    from that len5 have "length ?h \<le> m \<and> m < length h'" by auto
    with new obtain d where nd: "\<not> is_decision (h' ! m)" and d: "d < length ?h"
      and p: "parent (h' ! m) = Some d" and ns: "new_slot ?h h' d m" by blast
    from d have "d = 0 \<or> d = 1 \<or> d = 2" by auto
    with ns have "d = 1" by (auto simp: new_slot_def)
    with nd p show ?thesis by simp
  qed
  have p0: "parent (h' ! 0) = None" "parent (h' ! 1) = Some 0" "parent (h' ! 2) = Some 0"
    using old by simp_all
  from slots n1 have
    "(\<exists>m. length ?h \<le> m \<and> m < length h' \<and> left_child (h' ! 1) = Some m
          \<and> \<not> is_decision (h' ! m) \<and> parent (h' ! m) = Some 1)
     \<and> (\<exists>m. length ?h \<le> m \<and> m < length h' \<and> right_child (h' ! 1) = Some m
          \<and> \<not> is_decision (h' ! m) \<and> parent (h' ! m) = Some 1)"
    by (simp del: One_nat_def)
  then have ch: "(\<exists>m. 3 \<le> m \<and> m < 5 \<and> left_child (h' ! 1) = Some m)
     \<and> (\<exists>m. 3 \<le> m \<and> m < 5 \<and> right_child (h' ! 1) = Some m)"
    unfolding len5 by auto
  show ?thesis
    using H len5 created [of 3] created [of 4] p0 ch by auto
qed

end
